theory Spec2Isabelle
  imports Complex_Main "HOL-Library.Sublist"
begin

section \<open>The device, the operating system and the event trace\<close>

text \<open>
  The bot drives an Android device through a debug bridge and matches templates on
  screenshots. These collaborators are outside the program: their answers are given by an
  environment \<open>env\<close> that acts on an opaque world \<open>'w\<close>. Every call the program makes to
  them, and every line it logs, is appended to a trace, so that what a run did can be read
  off the final state.
\<close>

type_synonym area = "int \<times> int \<times> int \<times> int"

datatype exn = AttributeError | Raised string

text \<open>
  The messages of \<open>CityManager.log\<close> and of the \<open>print\<close> calls of \<open>MinimalBot\<close>, one
  constructor per format string, carrying the values the format string interpolates.
\<close>

datatype msg =
    NoDeviceConnected
  | ElementNotInConfig string
  | AdjustingClickX string int int
  | ClickedElement string int int
  | FailedToClick string
  | NotFoundAttempt string int int
  | NotFoundAfter string int
  | ClickedAt int int
  | ErrorClicking int int exn
  | Entered string string
  | ErrorInputting string exn
  | Searching int int
  | ExplorationStarted
  | ExploreButtonNotFound
  | FoundRuin string
  | NoRuinFound
  | March1Available
  | March1NotAvailable
  | March2Available
  | March2NotAvailable
  | TotalAvailableMarches int
  | StartingFlow
  | AvailableMarches int
  | PreviouslyExplored nat
  | SearchingLevel string
  | CheckingArea string
  | MarchStarted int int int int
  | ExplorationCompleted
  | MarchesUsed int int
  | NewRuinsExplored int
  | ReturnedToCity
  | ErrorSaving exn
  | ErrorLoading exn

datatype event =
    Log msg
  | Print msg
  | Detect string "area option" real "(int \<times> int) option"
  | Shell string "exn option"
  | Sleep real
  | PathExists bool
  | JsonLoad "exn + string list"
  | JsonDump "string list" "exn option"

text \<open>
  \<open>device\<close> tells whether \<open>bot.device\<close> is set. \<open>device_shell\<close> is \<open>device.shell\<close>, which
  may raise (\<open>Some e\<close>). \<open>detect_ui_element_in_area\<close> is the method of \<open>MinimalBot\<close>: it
  catches every exception and answers \<open>(True, (center_x, center_y))\<close>, here
  \<open>Some (center_x, center_y)\<close>, or \<open>(False, _)\<close>, here \<open>None\<close>. The last three fields are
  \<open>os.path.exists\<close>, reading and writing \<open>explored_ruins.json\<close>.
\<close>

record 'w env =
  device :: bool
  device_shell :: "string \<Rightarrow> 'w \<Rightarrow> exn option \<times> 'w"
  detect_ui_element_in_area :: "string \<Rightarrow> area option \<Rightarrow> real \<Rightarrow> 'w \<Rightarrow> (int \<times> int) option \<times> 'w"
  time_sleep :: "real \<Rightarrow> 'w \<Rightarrow> 'w"
  os_path_exists :: "'w \<Rightarrow> bool \<times> 'w"
  json_load :: "'w \<Rightarrow> (exn + string list) \<times> 'w"
  json_dump :: "string list \<Rightarrow> 'w \<Rightarrow> exn option \<times> 'w"

record 'w state =
  world :: 'w
  trace :: "event list"

text \<open>
  An entry of \<open>ui_elements\<close> in \<open>minimal_config.json\<close>: the image path, which
  \<open>save_element_to_config\<close> always writes, an optional search rectangle and an optional
  threshold. \<open>ui_elements\<close> is \<open>None\<close> when the configuration has no such key (or could not
  be loaded, in which case \<open>load_config\<close> returns the empty dictionary).
\<close>

record element_config =
  image_path :: string
  search_area :: "area option"
  threshold :: "real option"

record config =
  ui_elements :: "(string \<rightharpoonup> element_config) option"

definition get_element :: "config \<Rightarrow> string \<Rightarrow> element_config option" where
  \<comment> \<open>\<open>self.config.get("ui_elements", {}).get(name)\<close>\<close>
  "get_element cfg name = (case ui_elements cfg of None \<Rightarrow> None | Some m \<Rightarrow> m name)"

definition get_threshold :: "element_config \<Rightarrow> real \<Rightarrow> real" where
  \<comment> \<open>\<open>element_config.get("threshold", default)\<close>\<close>
  "get_threshold ec dflt = (case threshold ec of None \<Rightarrow> dflt | Some t \<Rightarrow> t)"

definition emit :: "event \<Rightarrow> 'w state \<Rightarrow> 'w state" where
  "emit ev s = s\<lparr>trace := trace s @ [ev]\<rparr>"

definition log_msg :: "msg \<Rightarrow> 'w state \<Rightarrow> 'w state" where
  "log_msg m s = emit (Log m) s"

definition sleep :: "'w env \<Rightarrow> real \<Rightarrow> 'w state \<Rightarrow> 'w state" where
  "sleep env t s = emit (Sleep t) (s\<lparr>world := time_sleep env t (world s)\<rparr>)"

definition shell :: "'w env \<Rightarrow> string \<Rightarrow> 'w state \<Rightarrow> exn option \<times> 'w state" where
  \<comment> \<open>\<open>self.bot.device.shell(cmd)\<close>: an attribute of \<open>None\<close> when no device is set\<close>
  "shell env cmd s =
     (if \<not> device env then (Some AttributeError, s)
      else case device_shell env cmd (world s) of
             (r, w) \<Rightarrow> (r, emit (Shell cmd r) (s\<lparr>world := w\<rparr>)))"

definition detect :: "'w env \<Rightarrow> string \<Rightarrow> area option \<Rightarrow> real \<Rightarrow> 'w state
    \<Rightarrow> (int \<times> int) option \<times> 'w state" where
  "detect env path ar thr s =
     (case detect_ui_element_in_area env path ar thr (world s) of
        (r, w) \<Rightarrow> (r, emit (Detect path ar thr r) (s\<lparr>world := w\<rparr>)))"

subsection \<open>Python's \<open>str\<close> on integers\<close>

definition digit :: "nat \<Rightarrow> char" where
  "digit n = ''0123456789'' ! n"

fun str_nat :: "nat \<Rightarrow> string" where
  "str_nat n = (if n < 10 then [digit n] else str_nat (n div 10) @ [digit (n mod 10)])"

declare str_nat.simps [simp del]

definition str :: "int \<Rightarrow> string" where
  "str i = (if i < 0 then CHR ''-'' # str_nat (nat (- i)) else str_nat (nat i))"

section \<open>The static coordinate catalog\<close>

text \<open>
  \<open>_load_ruin_coordinates\<close> returns a dictionary of dictionaries of lists. Python
  dictionaries iterate in insertion order, so each level is an association list.
\<close>

definition level_1_areas :: "(string \<times> (int \<times> int) list) list" where
  "level_1_areas =
   [(''Area 1 (Founding of the Three Kingdoms)'',
      [(15, 149), (33, 175), (34, 110), (73, 58), (119, 50), (130, 85), (133, 133), (140, 88),
       (157, 131), (156, 90), (172, 111), (180, 59), (193, 26), (193, 45), (200, 151),
       (211, 43), (214, 34), (226, 36), (238, 72), (243, 39), (246, 30), (266, 90), (270, 57),
       (289, 128), (310, 120), (314, 60), (350, 55)]),
    (''Area 2 (Discovering Relics)'',
      [(57, 214), (68, 211), (94, 206), (111, 221), (136, 224), (144, 180), (152, 222),
       (158, 198), (206, 170), (29, 361), (62, 315), (67, 359), (78, 263), (92, 255),
       (101, 332), (124, 318), (133, 350), (155, 282), (9, 480), (17, 495), (19, 455),
       (27, 464), (48, 491), (63, 405), (108, 422), (115, 392), (123, 377)]),
    (''Area 3 (War in the Three Kingdoms)'',
      [(49, 575), (52, 557), (64, 532), (71, 559), (81, 620), (96, 566), (114, 574),
       (132, 583), (138, 593), (17, 746), (18, 710), (21, 721), (32, 637), (36, 710),
       (37, 726), (53, 727), (55, 639), (71, 711), (46, 777), (54, 819), (63, 800), (67, 753),
       (84, 736), (84, 826), (100, 790), (102, 798), (126, 805)]),
    (''Area 4 (The Gnome Invasion)'',
      [(76, 840), (143, 880), (152, 833), (152, 853), (152, 860), (153, 921), (164, 893),
       (172, 834), (194, 834), (191, 895), (205, 937), (221, 873), (265, 862), (275, 890),
       (279, 865), (298, 957), (306, 908), (314, 932)]),
    (''Area 5 (A New Summons)'',
      [(449, 961), (455, 981), (467, 966), (472, 985), (487, 934), (508, 902), (525, 923),
       (544, 931), (565, 950), (581, 932), (585, 965), (596, 975)]),
    (''Area 6 (History of the Magic Academy)'',
      [(639, 950), (665, 883), (670, 856), (680, 961), (681, 858), (691, 875), (708, 900),
       (712, 878), (724, 892), (727, 912), (729, 947), (739, 942)]),
    (''Area 7 (The Dragons and the Treasury)'',
      [(800, 871), (842, 865), (843, 925), (866, 907), (868, 900), (891, 874), (894, 901),
       (904, 842), (910, 855), (843, 770), (843, 805), (851, 813), (888, 761), (892, 791),
       (892, 821), (912, 762), (913, 778), (916, 753)]),
    (''Area 8 (Sea Trade)'',
      [(960, 922), (972, 905), (976, 925), (977, 870), (996, 869), (1011, 868), (1012, 910),
       (1016, 846), (1021, 884), (1059, 886), (1091, 879), (1094, 900), (1095, 891),
       (1104, 835), (1115, 907), (1137, 854), (1149, 844), (1159, 833), (1032, 936),
       (1037, 926), (1062, 948), (1072, 940), (1077, 932), (1104, 977), (1113, 924),
       (1123, 966), (1133, 948)]),
    (''Area 9 (The Call of the Three Kingdoms)'',
      [(972, 791), (990, 821), (1013, 754), (1022, 823), (1023, 746), (1033, 850), (1036, 778),
       (1036, 817), (1046, 778), (1103, 782), (1116, 730), (1138, 782), (1139, 717),
       (1143, 775), (1155, 786), (1164, 781), (1179, 755), (1180, 765)]),
    (''Area 10 (The Doomsday Prophecy)'',
      [(1052, 715), (1063, 636), (1067, 726), (1073, 697), (1075, 688), (1119, 670),
       (1121, 624), (1139, 629), (1139, 664), (1012, 574), (1016, 585), (1020, 608),
       (1038, 555), (1039, 593), (1041, 562), (1058, 575), (1067, 573), (1096, 599)]),
    (''Area 11 (Harold's Ice Wall)'',
      [(1073, 438), (1102, 417), (1103, 475), (1105, 496), (1116, 449), (1122, 487),
       (1134, 535), (1138, 547), (1144, 415), (1043, 348), (1053, 343), (1070, 383),
       (1072, 346), (1079, 303), (1102, 377), (1110, 397), (1152, 402), (1153, 414)]),
    (''Area 12 (The Royal Alchemist Academy)'',
      [(1008, 261), (1031, 239), (1040, 199), (1041, 220), (1042, 287), (1052, 206),
       (1065, 217), (1075, 238), (1079, 278), (1055, 197), (1093, 148), (1101, 244),
       (1107, 142), (1118, 216), (1120, 185), (1129, 151), (1149, 221), (1156, 168)]),
    (''Area 13 (Sovereign Tomb)'',
      [(943, 228), (944, 175), (961, 149), (968, 174), (984, 147), (1008, 128), (1020, 199),
       (1039, 137), (1053, 136), (1023, 70), (1024, 43), (1037, 98), (1045, 76), (1073, 114),
       (1112, 98), (1134, 70), (1152, 68), (1169, 113)]),
    (''Area 14 (Hornheim's Disappearance)'',
      [(732, 123), (737, 87), (753, 141), (769, 84), (773, 163), (787, 226), (797, 202),
       (801, 123), (811, 123), (848, 124), (853, 92), (853, 105), (885, 93), (901, 115),
       (919, 62), (954, 113), (986, 123), (1007, 101)]),
    (''Area 15 (The Empire Crumbles)'',
      [(361, 82), (375, 141), (378, 56), (389, 108), (394, 140), (400, 182), (426, 68),
       (449, 93), (451, 131), (468, 72), (487, 87), (497, 63), (501, 99), (505, 65),
       (514, 144), (517, 113), (526, 172), (554, 107), (568, 160), (579, 142), (595, 73),
       (601, 96), (608, 74), (629, 93), (647, 182), (673, 115), (710, 87)])]"

definition level_2_areas :: "(string \<times> (int \<times> int) list) list" where
  "level_2_areas =
   [(''Area 16 (Sage Council)'',
      [(145, 260), (155, 267), (167, 286), (170, 329), (177, 278), (224, 222), (239, 222),
       (243, 232), (255, 262), (242, 199), (257, 231), (269, 231), (283, 203), (306, 165),
       (309, 192), (338, 129), (365, 160), (368, 141)]),
    (''Area 17 (Enigma Lieu)'',
      [(140, 392), (144, 459), (151, 353), (154, 367), (164, 447), (165, 405), (180, 425),
       (184, 378), (190, 412), (211, 369), (214, 430), (235, 353)]),
    (''Area 18 (Well of Time)'',
      [(151, 468), (155, 483), (192, 558), (193, 520), (208, 442), (210, 542), (229, 537),
       (233, 509), (246, 549), (264, 557), (280, 514), (300, 536)]),
    (''Area 19 (The First Gnome Invasion)'',
      [(129, 726), (149, 700), (172, 723), (184, 690), (190, 664), (198, 687), (211, 708),
       (212, 642), (218, 705), (244, 655), (258, 654), (266, 683), (117, 642), (125, 631),
       (127, 653), (161, 614), (167, 641), (177, 570), (178, 613), (195, 617), (203, 644),
       (204, 606), (247, 606), (261, 645)]),
    (''Area 20 (Above and Below)'',
      [(226, 840), (258, 809), (270, 801), (273, 844), (284, 828), (295, 767), (308, 760),
       (321, 751), (341, 770), (149, 763), (174, 755), (179, 783), (224, 781), (238, 707),
       (241, 773), (278, 704), (282, 691), (298, 738)]),
    (''Area 21 (Summoning Ban)'',
      [(483, 835), (494, 859), (516, 809), (517, 754), (523, 809), (535, 806), (543, 782),
       (556, 789), (571, 809), (352, 860), (363, 884), (374, 894), (386, 844), (386, 871),
       (403, 926), (418, 928), (419, 845), (423, 916)]),
    (''Area 22 (World Heart)'',
      [(642, 846), (646, 858), (657, 841), (663, 765), (673, 766), (686, 835), (690, 853),
       (698, 740), (726, 847), (553, 893), (557, 868), (572, 854), (574, 894), (590, 899),
       (591, 892), (596, 938), (604, 900), (609, 911)]),
    (''Area 23 (Terrifying Rumors)'',
      [(835, 665), (836, 692), (840, 681), (856, 674), (856, 684), (875, 694), (880, 728),
       (889, 684), (890, 668), (717, 801), (718, 750), (738, 804), (740, 812), (772, 776),
       (784, 778), (788, 816), (814, 815), (820, 807)]),
    (''Area 24 (Founding of the Empire)'',
      [(885, 605), (915, 620), (915, 653), (918, 667), (925, 666), (927, 644), (943, 661),
       (945, 599), (947, 653), (948, 588), (965, 606), (975, 656), (926, 764), (929, 705),
       (930, 777), (933, 743), (956, 787), (958, 726), (967, 697), (975, 762), (980, 751),
       (978, 688), (1006, 667), (1022, 671)]),
    (''Area 25 (Five Great Kingdoms)'',
      [(899, 367), (933, 323), (936, 399), (955, 385), (958, 475), (959, 416), (974, 394),
       (1011, 368), (1016, 347), (977, 447), (989, 435), (1003, 404), (1016, 481), (1024, 388),
       (1036, 470), (1041, 440), (1047, 410), (1085, 398)]),
    (''Area 26 (The Gnome's Birth and Exile)'',
      [(877, 254), (888, 260), (910, 256), (922, 267), (927, 292), (932, 285), (933, 304),
       (936, 316), (952, 280), (953, 243), (958, 264), (960, 328), (978, 298), (982, 321),
       (991, 287)]),
    (''Area 27 (The War of Five Kingdoms)'',
      [(752, 234), (754, 200), (758, 213), (763, 301), (787, 306), (792, 343), (799, 293),
       (804, 314), (836, 283), (816, 200), (820, 211), (833, 224), (880, 220), (899, 188),
       (908, 154), (911, 229), (914, 194), (931, 188)]),
    (''Area 28 (The Alchemists)'',
      [(367, 186), (414, 209), (420, 267), (426, 191), (428, 247), (453, 204), (467, 249),
       (493, 222), (501, 228), (518, 253), (538, 241), (539, 251), (546, 188), (554, 217),
       (558, 266), (572, 233), (600, 192), (624, 199), (646, 226), (669, 224), (695, 183),
       (696, 192), (697, 158), (706, 152), (706, 216), (722, 214), (734, 172)]),
    (''Area 29 (Hornheim)'',
      [(337, 282), (341, 210), (358, 224), (358, 235), (360, 246), (362, 196), (364, 276),
       (369, 251), (383, 307), (386, 234), (406, 283), (415, 291)])]"

definition level_3_areas :: "(string \<times> (int \<times> int) list) list" where
  "level_3_areas =
   [(''Area 30 (Stela of New World)'',
      [(268, 379), (285, 252), (289, 361), (299, 330), (301, 263), (309, 257), (310, 275),
       (315, 315), (356, 332), (260, 397), (276, 411), (287, 419), (295, 453), (314, 454),
       (326, 423), (335, 383), (338, 402), (397, 420)]),
    (''Area 31 (Temple of Norheim)'',
      [(269, 666), (279, 581), (296, 678), (332, 570), (333, 556), (343, 615), (376, 589),
       (386, 547), (395, 567), (336, 710), (344, 751), (356, 656), (357, 756), (367, 712),
       (373, 668), (381, 741), (386, 624), (406, 636)]),
    (''Area 32 (History of the Tribes)'',
      [(362, 821), (384, 808), (401, 821), (421, 812), (426, 758), (457, 815), (466, 752),
       (477, 775), (490, 742), (437, 658), (494, 652), (504, 694), (508, 644), (518, 666),
       (522, 699), (535, 688), (539, 673), (543, 682), (526, 745), (539, 748), (565, 756),
       (569, 708), (591, 728), (600, 730), (612, 708), (624, 759), (626, 774)]),
    (''Area 33 (Forbidden Zone)'',
      [(739, 677), (740, 707), (747, 748), (774, 643), (775, 740), (777, 692), (790, 690),
       (800, 657), (812, 688), (801, 621), (808, 650), (809, 664), (818, 593), (825, 648),
       (830, 615), (837, 622), (837, 632), (878, 604)]),
    (''Area 34 (Creation and the Guardians)'',
      [(925, 497), (932, 554), (935, 500), (942, 571), (950, 534), (960, 493), (984, 510),
       (989, 547), (991, 554), (998, 538), (1014, 504), (1039, 507)]),
    (''Area 35 (The Energy Circle)'',
      [(801, 548), (806, 558), (859, 515), (868, 523), (868, 533), (893, 564), (897, 511),
       (903, 492), (907, 483), (804, 390), (822, 399), (842, 400), (853, 413), (861, 363),
       (862, 329), (876, 356), (886, 375), (900, 331)]),
    (''Area 36 (The Destruction of Civilization)'',
      [(661, 276), (675, 271), (691, 253), (693, 272), (705, 328), (708, 311), (721, 292),
       (727, 264), (727, 314), (729, 294), (738, 265), (738, 333)]),
    (''Area 37 (The Memory Modification)'',
      [(463, 325), (471, 291), (486, 287), (498, 343), (501, 329), (511, 286), (517, 358),
       (538, 337), (544, 310), (545, 345), (563, 357), (576, 352)])]"
definition load_ruin_coordinates :: "(string \<times> (string \<times> (int \<times> int) list) list) list" where
  "load_ruin_coordinates =
     [(''Level 1'', level_1_areas), (''Level 2'', level_2_areas), (''Level 3'', level_3_areas)]"

definition areas_coordinates :: "(string \<times> (int \<times> int) list) list \<Rightarrow> (int \<times> int) list" where
  "areas_coordinates areas = concat (map snd areas)"

definition catalog_coordinates :: "(string \<times> (string \<times> (int \<times> int) list) list) list
    \<Rightarrow> (int \<times> int) list" where
  \<comment> \<open>every coordinate of a catalog, in (level, area, coordinate) order\<close>
  "catalog_coordinates levels = concat (map (\<lambda>(level, areas). areas_coordinates areas) levels)"

section \<open>The march-budget probe\<close>

definition count_available_marches :: "'w env \<Rightarrow> config \<Rightarrow> 'w state \<Rightarrow> int \<times> 'w state" where
  "count_available_marches env cfg s =
     (if \<not> device env then (0, log_msg NoDeviceConnected s)
      else
        let march_count = 2;
            (march_count, s) =
              (case get_element cfg ''MarchNb1'' of
                 None \<Rightarrow> (march_count, s)
               | Some march1_config \<Rightarrow>
                   (case detect env (image_path march1_config) (search_area march1_config)
                           (get_threshold march1_config 0.5) s of
                      (Some _, s) \<Rightarrow> (march_count - 1, log_msg March1Available s)
                    | (None, s) \<Rightarrow> (march_count, log_msg March1NotAvailable s)));
            (march_count, s) =
              (case get_element cfg ''MarchNb2'' of
                 None \<Rightarrow> (march_count, s)
               | Some march2_config \<Rightarrow>
                   (case detect env (image_path march2_config) (search_area march2_config)
                           (get_threshold march2_config 0.6) s of
                      (Some _, s) \<Rightarrow> (march_count - 1, log_msg March2Available s)
                    | (None, s) \<Rightarrow> (march_count, log_msg March2NotAvailable s)))
        in (march_count, log_msg (TotalAvailableMarches march_count) s))"

section \<open>Clicking a UI element\<close>

definition click_coordinate :: "'w env \<Rightarrow> int \<Rightarrow> int \<Rightarrow> 'w state \<Rightarrow> bool \<times> 'w state" where
  \<comment> \<open>\<open>MinimalBot.click_coordinate\<close>: the tap is sent inside \<open>try\<close>\<close>
  "click_coordinate env x y s =
     (if \<not> device env then (False, emit (Print NoDeviceConnected) s)
      else case shell env (''input tap '' @ str x @ '' '' @ str y) s of
             (None, s) \<Rightarrow> (True, emit (Print (ClickedAt x y)) s)
           | (Some e, s) \<Rightarrow> (False, emit (Print (ErrorClicking x y e)) s))"

text \<open>
  The loop \<open>for attempt in range(max_attempts)\<close> of \<open>click_element\<close>, over the attempts that
  are left. The empty list is the exit of the loop.
\<close>

fun click_element_loop :: "'w env \<Rightarrow> string \<Rightarrow> element_config \<Rightarrow> int \<Rightarrow> real \<Rightarrow> int list
    \<Rightarrow> 'w state \<Rightarrow> bool \<times> 'w state" where
  "click_element_loop env element_name element_config max_attempts thr [] s =
     (False, log_msg (NotFoundAfter element_name max_attempts) s)"
| "click_element_loop env element_name element_config max_attempts thr (attempt # attempts) s =
     (case detect env (image_path element_config) (search_area element_config)
             (get_threshold element_config thr) s of
        (Some (center_x, center_y), s) \<Rightarrow>
          (case (if element_name = ''coordX'' \<or> element_name = ''coordY''
                 then (center_x + 45,
                       log_msg (AdjustingClickX element_name center_x (center_x + 45)) s)
                 else (center_x, s)) of
             (adjusted_x, s) \<Rightarrow>
               (case click_coordinate env adjusted_x center_y s of
                  (True, s) \<Rightarrow> (True, log_msg (ClickedElement element_name adjusted_x center_y) s)
                | (False, s) \<Rightarrow> (False, log_msg (FailedToClick element_name) s)))
      | (None, s) \<Rightarrow>
          click_element_loop env element_name element_config max_attempts thr attempts
            (if attempt < max_attempts - 1
             then log_msg (NotFoundAttempt element_name (attempt + 1) max_attempts) s
             else s))"

definition click_element :: "'w env \<Rightarrow> config \<Rightarrow> string \<Rightarrow> int \<Rightarrow> real \<Rightarrow> 'w state
    \<Rightarrow> bool \<times> 'w state" where
  "click_element env cfg element_name max_attempts thr s =
     (if \<not> device env then (False, log_msg NoDeviceConnected s)
      else case get_element cfg element_name of
             None \<Rightarrow> (False, log_msg (ElementNotInConfig element_name) s)
           | Some element_config \<Rightarrow>
               click_element_loop env element_name element_config max_attempts thr
                 [0..max_attempts - 1] s)"

section \<open>Typing a coordinate\<close>

fun press_del :: "'w env \<Rightarrow> nat \<Rightarrow> 'w state \<Rightarrow> exn option \<times> 'w state" where
  \<comment> \<open>\<open>for _ in range(n)\<close>: delete key, then a pause\<close>
  "press_del env 0 s = (None, s)"
| "press_del env (Suc n) s =
     (case shell env ''input keyevent KEYCODE_DEL'' s of
        (Some e, s) \<Rightarrow> (Some e, s)
      | (None, s) \<Rightarrow> press_del env n (sleep env 0.05 s))"

definition input_coordinate_try :: "'w env \<Rightarrow> string \<Rightarrow> 'w state \<Rightarrow> exn option \<times> 'w state" where
  \<comment> \<open>the body of the \<open>try\<close> block of \<open>input_coordinate\<close>, up to the log line\<close>
  "input_coordinate_try env adjusted_value s =
     (case press_del env 4 s of
        (Some e, s) \<Rightarrow> (Some e, s)
      | (None, s) \<Rightarrow>
          (case shell env (''input text '' @ adjusted_value) s of
             (Some e, s) \<Rightarrow> (Some e, s)
           | (None, s) \<Rightarrow>
               (case shell env ''input keyevent KEYCODE_ENTER'' (sleep env 0.25 s) of
                  (Some e, s) \<Rightarrow> (Some e, s)
                | (None, s) \<Rightarrow> (None, sleep env 0.25 s))))"

definition input_coordinate :: "'w env \<Rightarrow> string \<Rightarrow> string \<Rightarrow> 'w state
    \<Rightarrow> (exn + bool) \<times> 'w state" where
  \<comment> \<open>the first tap is outside the \<open>try\<close> block: what it raises leaves the function\<close>
  "input_coordinate env coord_type val s =
     (case (if coord_type = ''X'' then shell env ''input tap 835 41'' s
            else if coord_type = ''Y'' then shell env ''input tap 965 41'' s
            else (None, s)) of
        (Some e, s) \<Rightarrow> (Inl e, s)
      | (None, s) \<Rightarrow>
          (case input_coordinate_try env val (sleep env 0.5 s) of
             (None, s) \<Rightarrow> (Inr True, log_msg (Entered coord_type val) s)
           | (Some e, s) \<Rightarrow> (Inr False, log_msg (ErrorInputting coord_type e) s)))"

section \<open>The probe: searching a ruin at a coordinate\<close>

text \<open>
  A statement either returns from the function or lets the next statement run.
\<close>

datatype 'a completion = Return 'a | Next

definition explore_click_stmt :: "'w env \<Rightarrow> config \<Rightarrow> 'w state \<Rightarrow> bool completion \<times> 'w state" where
  \<comment> \<open>the \<open>if\<close>/\<open>else\<close> on the exploreNew click, lines 574 to 580\<close>
  "explore_click_stmt env cfg s =
     (case click_element env cfg ''exploreNew'' 1 0.4 s of
        (True, s) \<Rightarrow> (Return True, sleep env 0.5 (log_msg ExplorationStarted s))
      | (False, s) \<Rightarrow> (Return False, log_msg ExploreButtonNotFound s))"

fun find_ruin_variant :: "'w env \<Rightarrow> config \<Rightarrow> string list \<Rightarrow> 'w state \<Rightarrow> bool \<times> 'w state" where
  \<comment> \<open>\<open>for ruin_variant in ruin_variants\<close>, leaving the loop at the first variant clicked\<close>
  "find_ruin_variant env cfg [] s = (False, s)"
| "find_ruin_variant env cfg (ruin_variant # ruin_variants) s =
     (case click_element env cfg ruin_variant 2 0.43 s of
        (True, s) \<Rightarrow> (True, log_msg (FoundRuin ruin_variant) s)
      | (False, s) \<Rightarrow> find_ruin_variant env cfg ruin_variants s)"

definition ruin_variant_block :: "'w env \<Rightarrow> config \<Rightarrow> 'w state \<Rightarrow> (exn + bool) \<times> 'w state" where
  \<comment> \<open>the statements after the \<open>if\<close>/\<open>else\<close>, lines 581 to 604\<close>
  "ruin_variant_block env cfg s =
     (case find_ruin_variant env cfg
             [''foundRuin6'', ''foundRuin4'', ''foundRuin5'', ''foundRuin3'', ''1231d12d''] s of
        (True, s) \<Rightarrow>
          (case click_element env cfg ''exploreNew'' 1 0.4 (sleep env 0.35 s) of
             (True, s) \<Rightarrow> (Inr True, sleep env 0.5 (log_msg ExplorationStarted s))
           | (False, s) \<Rightarrow> (Inr False, log_msg ExploreButtonNotFound s))
      | (False, s) \<Rightarrow> (Inr False, log_msg NoRuinFound s))"

definition search_ruin_at_coordinate_then :: "('w state \<Rightarrow> (exn + bool) \<times> 'w state) \<Rightarrow> 'w env
    \<Rightarrow> config \<Rightarrow> int \<Rightarrow> int \<Rightarrow> 'w state \<Rightarrow> (exn + bool) \<times> 'w state" where
  \<comment> \<open>\<open>search_ruin_at_coordinate\<close> with the statements after the \<open>if\<close>/\<open>else\<close> as \<open>rest\<close>\<close>
  "search_ruin_at_coordinate_then rest env cfg x y s =
     (case input_coordinate env ''X'' (str x) (log_msg (Searching x y) s) of
        (Inl e, s) \<Rightarrow> (Inl e, s)
      | (Inr entered, s) \<Rightarrow>
          if \<not> entered then (Inr False, s)
          else
            (case input_coordinate env ''Y'' (str y) s of
               (Inl e, s) \<Rightarrow> (Inl e, s)
             | (Inr entered, s) \<Rightarrow>
                 if \<not> entered then (Inr False, s)
                 else
                   (case shell env ''input tap 1061 41'' s of
                      (Some e, s) \<Rightarrow> (Inl e, s)
                    | (None, s) \<Rightarrow>
                        (case shell env ''input tap 951 313'' (sleep env 1.25 s) of
                           (Some e, s) \<Rightarrow> (Inl e, s)
                         | (None, s) \<Rightarrow>
                             (case explore_click_stmt env cfg (sleep env 0.25 s) of
                                (Return found, s) \<Rightarrow> (Inr found, s)
                              | (Next, s) \<Rightarrow> rest s)))))"

definition search_ruin_at_coordinate :: "'w env \<Rightarrow> config \<Rightarrow> int \<Rightarrow> int \<Rightarrow> 'w state
    \<Rightarrow> (exn + bool) \<times> 'w state" where
  "search_ruin_at_coordinate env cfg x y s =
     search_ruin_at_coordinate_then (ruin_variant_block env cfg) env cfg x y s"

section \<open>The explored set on disk\<close>

definition save_explored_ruins :: "'w env \<Rightarrow> string list \<Rightarrow> 'w state \<Rightarrow> 'w state" where
  "save_explored_ruins env explored s =
     (case json_dump env explored (world s) of
        (r, w) \<Rightarrow>
          (case r of
             None \<Rightarrow> emit (JsonDump explored r) (s\<lparr>world := w\<rparr>)
           | Some e \<Rightarrow> log_msg (ErrorSaving e) (emit (JsonDump explored r) (s\<lparr>world := w\<rparr>))))"

definition load_explored_ruins :: "'w env \<Rightarrow> 'w state \<Rightarrow> string list \<times> 'w state" where
  "load_explored_ruins env s =
     (case os_path_exists env (world s) of
        (present, w) \<Rightarrow>
          if present
          then (case json_load env w of
                  (r, w') \<Rightarrow>
                    (case r of
                       Inr explored \<Rightarrow>
                         (explored, emit (JsonLoad r) (emit (PathExists present) (s\<lparr>world := w'\<rparr>)))
                     | Inl e \<Rightarrow>
                         ([], log_msg (ErrorLoading e)
                                (emit (JsonLoad r) (emit (PathExists present) (s\<lparr>world := w'\<rparr>))))))
          else ([], emit (PathExists present) (s\<lparr>world := w\<rparr>)))"

section \<open>The exploration flow\<close>

record loop_vars =
  marches_used :: int
  total_explored :: int
  explored_ruins :: "string list"

definition coord_key :: "int \<Rightarrow> int \<Rightarrow> string" where
  \<comment> \<open>\<open>f"{x},{y}"\<close>\<close>
  "coord_key x y = str x @ '','' @ str y"

fun explore_coordinates :: "'w env \<Rightarrow> config \<Rightarrow> int \<Rightarrow> (int \<times> int) list \<Rightarrow> loop_vars
    \<Rightarrow> 'w state \<Rightarrow> (exn + loop_vars) \<times> 'w state" where
  \<comment> \<open>\<open>for coord in coordinates\<close>, lines 679 to 699\<close>
  "explore_coordinates env cfg available_marches [] v s = (Inr v, s)"
| "explore_coordinates env cfg available_marches ((x, y) # coordinates) v s =
     (if marches_used v \<ge> available_marches then (Inr v, s)
      else if coord_key x y \<in> set (explored_ruins v)
      then explore_coordinates env cfg available_marches coordinates v s
      else
        (case search_ruin_at_coordinate env cfg x y s of
           (Inl e, s) \<Rightarrow> (Inl e, s)
         | (Inr found, s) \<Rightarrow>
             (case (if found
                    then (v\<lparr>marches_used := marches_used v + 1,
                             total_explored := total_explored v + 1\<rparr>,
                          log_msg (MarchStarted (marches_used v + 1) available_marches x y) s)
                    else (v, s)) of
                (v, s) \<Rightarrow>
                  explore_coordinates env cfg available_marches coordinates
                    (v\<lparr>explored_ruins := explored_ruins v @ [coord_key x y]\<rparr>)
                    (sleep env 1
                      (save_explored_ruins env (explored_ruins v @ [coord_key x y]) s)))))"

fun explore_areas :: "'w env \<Rightarrow> config \<Rightarrow> int \<Rightarrow> (string \<times> (int \<times> int) list) list \<Rightarrow> loop_vars
    \<Rightarrow> 'w state \<Rightarrow> (exn + loop_vars) \<times> 'w state" where
  \<comment> \<open>\<open>for area_name, coordinates in areas.items()\<close>, lines 673 to 699\<close>
  "explore_areas env cfg available_marches [] v s = (Inr v, s)"
| "explore_areas env cfg available_marches ((area_name, coordinates) # areas) v s =
     (if marches_used v \<ge> available_marches then (Inr v, s)
      else
        (case explore_coordinates env cfg available_marches coordinates v
                (log_msg (CheckingArea area_name) s) of
           (Inl e, s) \<Rightarrow> (Inl e, s)
         | (Inr v, s) \<Rightarrow> explore_areas env cfg available_marches areas v s))"

fun explore_levels :: "'w env \<Rightarrow> config \<Rightarrow> int
    \<Rightarrow> (string \<times> (string \<times> (int \<times> int) list) list) list \<Rightarrow> loop_vars
    \<Rightarrow> 'w state \<Rightarrow> (exn + loop_vars) \<times> 'w state" where
  \<comment> \<open>\<open>for level, areas in ruin_coords.items()\<close>, lines 667 to 699\<close>
  "explore_levels env cfg available_marches [] v s = (Inr v, s)"
| "explore_levels env cfg available_marches ((level, areas) # levels) v s =
     (if marches_used v \<ge> available_marches then (Inr v, s)
      else
        (case explore_areas env cfg available_marches areas v (log_msg (SearchingLevel level) s) of
           (Inl e, s) \<Rightarrow> (Inl e, s)
         | (Inr v, s) \<Rightarrow> explore_levels env cfg available_marches levels v s))"

definition explore_ruins_flow :: "'w env \<Rightarrow> config \<Rightarrow> 'w state \<Rightarrow> (exn + bool) \<times> 'w state" where
  "explore_ruins_flow env cfg s =
     (case count_available_marches env cfg (log_msg StartingFlow s) of
        (available_marches, s) \<Rightarrow>
          if available_marches = 0 then (Inr False, log_msg (AvailableMarches available_marches) s)
          else
            (case load_explored_ruins env (log_msg (AvailableMarches available_marches) s) of
               (explored, s) \<Rightarrow>
                 (case explore_levels env cfg available_marches load_ruin_coordinates
                         \<lparr>marches_used = 0, total_explored = 0, explored_ruins = explored\<rparr>
                         (log_msg (PreviouslyExplored (length explored)) s) of
                    (Inl e, s) \<Rightarrow> (Inl e, s)
                  | (Inr v, s) \<Rightarrow>
                      (case click_element env cfg ''home_button'' 4 0.5
                              (sleep env 2
                                (log_msg (NewRuinsExplored (total_explored v))
                                  (log_msg (MarchesUsed (marches_used v) available_marches)
                                    (log_msg ExplorationCompleted s)))) of
                         (True, s) \<Rightarrow> (Inr (marches_used v > 0), log_msg ReturnedToCity s)
                       | (False, s) \<Rightarrow> (Inr (marches_used v > 0), s)))))"

section \<open>What a run did, read off its trace\<close>

text \<open>
  Three kinds of events matter to the flow: the first log line of
  \<open>search_ruin_at_coordinate\<close>, which marks a probe of a coordinate; the log line
  \<open>Successfully started exploration\<close>, written where the probe returns \<open>True\<close>; and the
  write of the explored list to disk.
\<close>

datatype obs = Probe int int | Success | Saved "string list"

definition obs_of :: "event \<Rightarrow> obs list" where
  "obs_of ev =
     (case ev of
        Log m \<Rightarrow> (case m of Searching x y \<Rightarrow> [Probe x y] | ExplorationStarted \<Rightarrow> [Success] | _ \<Rightarrow> [])
      | JsonDump explored r \<Rightarrow> [Saved explored]
      | _ \<Rightarrow> [])"

definition flow_obs :: "event list \<Rightarrow> obs list" where
  "flow_obs tr = concat (map obs_of tr)"

fun probed :: "obs list \<Rightarrow> (int \<times> int) list" where
  "probed [] = []"
| "probed (Probe x y # X) = (x, y) # probed X"
| "probed (_ # X) = probed X"

fun n_success :: "obs list \<Rightarrow> nat" where
  "n_success [] = 0"
| "n_success (Success # X) = Suc (n_success X)"
| "n_success (_ # X) = n_success X"

fun saved :: "obs list \<Rightarrow> string list list" where
  "saved [] = []"
| "saved (Saved explored # X) = explored # saved X"
| "saved (_ # X) = saved X"

definition initial :: "'w \<Rightarrow> 'w state" where
  \<comment> \<open>the start of a run in world \<open>w\<close>: nothing has happened yet\<close>
  "initial w = \<lparr>world = w, trace = []\<rparr>"

section \<open>The exploration loop as a machine over observations\<close>

text \<open>
  Between two probes the loop is \<open>Idle\<close>; from the first log line of a probe until the
  explored list is written it is \<open>Probing\<close> that coordinate, the flag telling whether the
  probe has reported success. \<open>step\<close> follows one observation from a state made of the
  used-count, the explored list and the phase; it answers \<open>None\<close> on an observation the loop
  cannot make there.
\<close>

datatype phase = Idle | Probing int int bool

type_synonym run_state = "int \<times> string list \<times> phase"

definition step :: "int \<Rightarrow> run_state option \<Rightarrow> obs \<Rightarrow> run_state option" where
  "step available_marches st ob =
     (case st of
        None \<Rightarrow> None
      | Some (used, explored, ph) \<Rightarrow>
          (case ob of
             Probe x y \<Rightarrow>
               (case ph of
                  Idle \<Rightarrow>
                    if used < available_marches \<and> coord_key x y \<notin> set explored
                    then Some (used, explored, Probing x y False) else None
                | Probing x' y' b \<Rightarrow> None)
           | Success \<Rightarrow>
               (case ph of
                  Idle \<Rightarrow> None
                | Probing x y b \<Rightarrow> if b then None else Some (used + 1, explored, Probing x y True))
           | Saved l \<Rightarrow>
               (case ph of
                  Idle \<Rightarrow> None
                | Probing x y b \<Rightarrow>
                    if l = explored @ [coord_key x y] then Some (used, l, Idle) else None)))"

definition track :: "int \<Rightarrow> run_state option \<Rightarrow> obs list \<Rightarrow> run_state option" where
  "track available_marches st X = foldl (step available_marches) st X"

definition pending :: "phase \<Rightarrow> string list" where
  \<comment> \<open>the key that the next write will append\<close>
  "pending ph = (case ph of Idle \<Rightarrow> [] | Probing x y b \<Rightarrow> [coord_key x y])"

definition keys :: "(int \<times> int) list \<Rightarrow> string list" where
  "keys cs = map (\<lambda>(x, y). coord_key x y) cs"

definition explored_after :: "string list \<Rightarrow> obs list \<Rightarrow> string list" where
  \<comment> \<open>the explored list as last handed to \<open>save_explored_ruins\<close>, or the loaded one\<close>
  "explored_after explored X = last (explored # saved X)"

text \<open>
  What a loop over the coordinates \<open>cs\<close> guarantees about its observations \<open>X\<close> and its
  result \<open>r\<close>, from the loop variables \<open>v\<close>: a normal exit ends in phase \<open>Idle\<close> with the
  budget used up or every key of \<open>cs\<close> explored; an exception leaves a probe open.
\<close>

definition loop_post :: "int \<Rightarrow> (int \<times> int) list \<Rightarrow> loop_vars \<Rightarrow> exn + loop_vars \<Rightarrow> obs list \<Rightarrow> bool" where
  "loop_post B cs v r X \<longleftrightarrow>
     subseq (probed X) cs \<and>
     (case r of
        Inr v' \<Rightarrow>
          track B (Some (marches_used v, explored_ruins v, Idle)) X =
            Some (marches_used v', explored_ruins v', Idle) \<and>
          (B \<le> marches_used v' \<or> set (keys cs) \<subseteq> set (explored_ruins v'))
      | Inl e \<Rightarrow>
          (\<exists>u E x y. track B (Some (marches_used v, explored_ruins v, Idle)) X =
             Some (u, E, Probing x y False)))"

section \<open>The walk over the catalog\<close>

text \<open>
  \<open>walk\<close> reads a list of observations as the walk of the loops over the coordinates \<open>cs\<close>,
  from a used-count and an explored list. Once the used-count has reached the budget nothing
  more may be observed. A coordinate whose key is in the explored list is passed over. Any
  other coordinate must be probed next: the probe is followed by the write of the list with
  its key appended, after a success line if the probe succeeded, which adds one to the
  used-count; a probe that is the last observation was cut short. The answer is \<open>Walked\<close> with
  the final used-count and explored list when the observations are those of a walk to the
  end, \<open>Aborted\<close> when they are those of a walk cut short in a probe, and \<open>Stray\<close> when they
  are neither.
\<close>

datatype walked = Stray | Aborted | Walked int "string list"

fun walk :: "int \<Rightarrow> (int \<times> int) list \<Rightarrow> int \<Rightarrow> string list \<Rightarrow> obs list \<Rightarrow> walked" where
  "walk available_marches [] used explored X = (if X = [] then Walked used explored else Stray)"
| "walk available_marches ((x, y) # cs) used explored X =
     (if available_marches \<le> used then (if X = [] then Walked used explored else Stray)
      else if coord_key x y \<in> set explored then walk available_marches cs used explored X
      else (case X of
              [] \<Rightarrow> Stray
            | ob # X1 \<Rightarrow>
                if ob \<noteq> Probe x y then Stray
                else (case X1 of
                        [] \<Rightarrow> Aborted
                      | ob1 # X2 \<Rightarrow>
                          (case ob1 of
                             Probe x' y' \<Rightarrow> Stray
                           | Saved l \<Rightarrow>
                               if l = explored @ [coord_key x y]
                               then walk available_marches cs used l X2 else Stray
                           | Success \<Rightarrow>
                               (case X2 of
                                  [] \<Rightarrow> Stray
                                | ob2 # X3 \<Rightarrow>
                                    if ob2 = Saved (explored @ [coord_key x y])
                                    then walk available_marches cs (used + 1)
                                           (explored @ [coord_key x y]) X3
                                    else Stray)))))"

definition walk_outcome :: "exn + loop_vars \<Rightarrow> walked" where
  \<comment> \<open>how \<open>walk\<close> reads the result of a loop\<close>
  "walk_outcome r = (case r of Inl e \<Rightarrow> Aborted | Inr v \<Rightarrow> Walked (marches_used v) (explored_ruins v))"

section \<open>The inputs of a run of the flow\<close>

definition flow_budget :: "'w env \<Rightarrow> config \<Rightarrow> 'w state \<Rightarrow> int" where
  \<comment> \<open>\<open>available_marches\<close>: what the budget probe returns at the start of the flow\<close>
  "flow_budget env cfg s = fst (count_available_marches env cfg (log_msg StartingFlow s))"

definition flow_explored :: "'w env \<Rightarrow> config \<Rightarrow> 'w state \<Rightarrow> string list" where
  \<comment> \<open>\<open>explored_ruins\<close> as \<open>load_explored_ruins\<close> returns it after the budget probe\<close>
  "flow_explored env cfg s =
     fst (load_explored_ruins env
            (log_msg (AvailableMarches (flow_budget env cfg s))
               (snd (count_available_marches env cfg (log_msg StartingFlow s)))))"

definition flow_loops :: "'w env \<Rightarrow> config \<Rightarrow> 'w state \<Rightarrow> (exn + loop_vars) \<times> 'w state" where
  \<comment> \<open>the three nested loops as \<open>explore_ruins_flow\<close> enters them when the budget is not 0\<close>
  "flow_loops env cfg s =
     explore_levels env cfg (flow_budget env cfg s) load_ruin_coordinates
       \<lparr>marches_used = 0, total_explored = 0, explored_ruins = flow_explored env cfg s\<rparr>
       (log_msg (PreviouslyExplored (length (flow_explored env cfg s)))
          (snd (load_explored_ruins env
                  (log_msg (AvailableMarches (flow_budget env cfg s))
                     (snd (count_available_marches env cfg (log_msg StartingFlow s)))))))"

definition reads_only :: "event \<Rightarrow> bool" where
  \<comment> \<open>a log line or a detection: nothing is sent to the device, no file is touched\<close>
  "reads_only ev = (case ev of Log m \<Rightarrow> True | Detect p a t r \<Rightarrow> True | _ \<Rightarrow> False)"

section \<open>A sample device and two sample configurations\<close>

text \<open>
  The world of the sample device counts the detections made so far. The march indicators
  are on screen; the explore button appears from the third detection on; the device accepts
  every command; there is no file of explored ruins yet and writes succeed.
\<close>

definition demo_env :: "nat env" where
  "demo_env =
     \<lparr>device = True,
      device_shell = (\<lambda>cmd w. (None, w)),
      detect_ui_element_in_area = (\<lambda>path ar thr w.
        (if path = ''march1.png'' \<or> path = ''march2.png'' then Some (40, 60)
         else if path = ''explore.png'' \<and> 2 \<le> w then Some (950, 320)
         else None, Suc w)),
      time_sleep = (\<lambda>t w. w),
      os_path_exists = (\<lambda>w. (False, w)),
      json_load = (\<lambda>w. (Inr [], w)),
      json_dump = (\<lambda>explored w. (None, w))\<rparr>"

definition demo_config :: config where
  \<comment> \<open>one march indicator and the explore button\<close>
  "demo_config =
     \<lparr>ui_elements = Some
        [''MarchNb1'' \<mapsto> \<lparr>image_path = ''march1.png'', search_area = None, threshold = None\<rparr>,
         ''exploreNew'' \<mapsto>
           \<lparr>image_path = ''explore.png'', search_area = Some (800, 200, 1100, 400),
            threshold = None\<rparr>]\<rparr>"

definition busy_config :: config where
  \<comment> \<open>both march indicators and the explore button\<close>
  "busy_config =
     \<lparr>ui_elements = Some
        [''MarchNb1'' \<mapsto> \<lparr>image_path = ''march1.png'', search_area = None, threshold = None\<rparr>,
         ''MarchNb2'' \<mapsto> \<lparr>image_path = ''march2.png'', search_area = None, threshold = Some 0.7\<rparr>,
         ''exploreNew'' \<mapsto>
           \<lparr>image_path = ''explore.png'', search_area = Some (800, 200, 1100, 400),
            threshold = None\<rparr>]\<rparr>"

definition run_obs :: "'w env \<Rightarrow> config \<Rightarrow> 'w \<Rightarrow> obs list" where
  \<comment> \<open>the observations of one run of the flow started in world \<open>w\<close>\<close>
  "run_obs env cfg w = flow_obs (trace (snd (explore_ruins_flow env cfg (initial w))))"

definition run_result :: "'w env \<Rightarrow> config \<Rightarrow> 'w \<Rightarrow> exn + bool" where
  "run_result env cfg w = fst (explore_ruins_flow env cfg (initial w))"

definition flow_post :: "int \<Rightarrow> string list \<Rightarrow> exn + bool \<Rightarrow> obs list \<Rightarrow> bool" where
  \<comment> \<open>what a run of the whole flow guarantees, from the budget and the loaded list\<close>
  "flow_post B E r X \<longleftrightarrow>
     subseq (probed X) (catalog_coordinates load_ruin_coordinates) \<and>
     (if B = 0 then X = [] else True) \<and>
     (case r of
        Inr b \<Rightarrow>
          (\<exists>u' E'. track B (Some (0, E, Idle)) X = Some (u', E', Idle) \<and> b = (0 < u') \<and>
             (B \<le> u' \<or> set (keys (catalog_coordinates load_ruin_coordinates)) \<subseteq> set E'))
      | Inl e \<Rightarrow> (\<exists>u' E' x y. track B (Some (0, E, Idle)) X = Some (u', E', Probing x y False)))"

definition seen_env :: "nat env" where
  \<comment> \<open>the sample device with a file of explored ruins that holds the first coordinate\<close>
  "seen_env =
     demo_env\<lparr>os_path_exists := (\<lambda>w. (True, w)), json_load := (\<lambda>w. (Inr [''15,149''], w))\<rparr>"

definition dark_env :: "nat env" where
  \<comment> \<open>the sample device with a screen on which nothing is ever detected\<close>
  "dark_env = demo_env\<lparr>detect_ui_element_in_area := (\<lambda>path ar thr w. (None, Suc w))\<rparr>"

definition unplugged_env :: "nat env" where
  \<comment> \<open>the sample device, lost when the search button is tapped after the coordinate is typed\<close>
  "unplugged_env =
     demo_env\<lparr>device_shell := (\<lambda>cmd w.
        (if cmd = ''input tap 1061 41'' then Some (Raised ''device offline'') else None, w))\<rparr>"

definition read_only_env :: "nat env" where
  \<comment> \<open>the sample device with a file of explored ruins that cannot be written\<close>
  "read_only_env =
     demo_env\<lparr>json_dump := (\<lambda>explored w. (Some (Raised ''read-only file system''), w))\<rparr>"

definition resumed_env :: "nat env" where
  \<comment> \<open>the sample device with the file of explored ruins that a first run has left\<close>
  "resumed_env =
     demo_env\<lparr>os_path_exists := (\<lambda>w. (True, w)),
              json_load := (\<lambda>w. (Inr [''15,149'', ''33,175''], w))\<rparr>"

section \<open>The writes of the explored list in a trace\<close>

definition dumps :: "event list \<Rightarrow> (string list \<times> exn option) list" where
  \<comment> \<open>the writes of the explored list, in order: the list written and what the write raised\<close>
  "dumps tr = concat (map (\<lambda>ev. case ev of JsonDump explored r \<Rightarrow> [(explored, r)] | _ \<Rightarrow> []) tr)"

section \<open>The detection calls in a trace\<close>

definition detections :: "event list \<Rightarrow> (string \<times> area option \<times> real \<times> (int \<times> int) option) list" where
  \<comment> \<open>the calls of \<open>detect_ui_element_in_area\<close>, in order: image, area, threshold, answer\<close>
  "detections tr =
     concat (map (\<lambda>ev. case ev of Detect p a t r \<Rightarrow> [(p, a, t, r)] | _ \<Rightarrow> []) tr)"

definition click_post :: "string \<Rightarrow> element_config \<Rightarrow> int \<Rightarrow> real \<Rightarrow> nat \<Rightarrow> bool \<Rightarrow> event list
    \<Rightarrow> bool" where
  \<comment> \<open>what the attempt loop of \<open>click_element\<close> guarantees with \<open>n\<close> attempts left\<close>
  "click_post element_name ec max_attempts thr n clicked evs \<longleftrightarrow>
     length (detections evs) \<le> n \<and>
     (\<forall>d \<in> set (detections evs).
        fst d = image_path ec \<and> fst (snd d) = search_area ec \<and>
        fst (snd (snd d)) = get_threshold ec thr) \<and>
     ((\<forall>d \<in> set (detections evs). snd (snd (snd d)) = None) \<longrightarrow>
        \<not> clicked \<and> length (detections evs) = n \<and>
        last evs = Log (NotFoundAfter element_name max_attempts)) \<and>
     ((\<exists>cmd e. Shell cmd (Some e) \<in> set evs) \<longrightarrow>
        \<not> clicked \<and> last evs = Log (FailedToClick element_name)) \<and>
     (\<not> clicked \<longrightarrow> evs \<noteq> [] \<and> (\<exists>m. last evs = Log m))"

section \<open>A quadratic duplicate check for coordinate lists\<close>

fun fresh :: "int \<times> int \<Rightarrow> (int \<times> int) list \<Rightarrow> bool" where
  "fresh p [] = True"
| "fresh p (q # qs) = (p \<noteq> q \<and> fresh p qs)"

fun all_fresh :: "(int \<times> int) list \<Rightarrow> bool" where
  "all_fresh [] = True"
| "all_fresh (p # ps) = (fresh p ps \<and> all_fresh ps)"

fun apart :: "(int \<times> int) list \<Rightarrow> (int \<times> int) list \<Rightarrow> bool" where
  "apart [] qs = True"
| "apart (p # ps) qs = (fresh p qs \<and> apart ps qs)"

section \<open>What each operation adds to the observations\<close>

lemma obs_of_simps [simp]:
  "obs_of (Print m) = []"
  "obs_of (Detect p a t r) = []"
  "obs_of (Shell c e) = []"
  "obs_of (Sleep d) = []"
  "obs_of (PathExists b) = []"
  "obs_of (JsonLoad l) = []"
  "obs_of (JsonDump explored e) = [Saved explored]"
  "obs_of (Log m) = (case m of Searching x y \<Rightarrow> [Probe x y] | ExplorationStarted \<Rightarrow> [Success] | _ \<Rightarrow> [])"
  by (simp_all add: obs_of_def)

lemma flow_obs_simps [simp]:
  "flow_obs [] = []"
  "flow_obs (ev # tr) = obs_of ev @ flow_obs tr"
  "flow_obs (tr @ tr') = flow_obs tr @ flow_obs tr'"
  by (simp_all add: flow_obs_def)

lemma trace_emit [simp]: "trace (emit ev s) = trace s @ [ev]"
  by (simp add: emit_def)

lemma trace_log_msg [simp]: "trace (log_msg m s) = trace s @ [Log m]"
  by (simp add: log_msg_def)

lemma trace_sleep [simp]: "trace (sleep env t s) = trace s @ [Sleep t]"
  by (simp add: sleep_def)

lemma trace_shell:
  "trace (snd (shell env cmd s)) = trace s @ (if device env then [Shell cmd (fst (shell env cmd s))] else [])"
  by (simp add: shell_def split_beta)

lemma trace_detect:
  "trace (snd (detect env p a t s)) = trace s @ [Detect p a t (fst (detect env p a t s))]"
  by (simp add: detect_def split_beta)

lemma obs_shell [simp]: "flow_obs (trace (snd (shell env cmd s))) = flow_obs (trace s)"
  by (simp add: trace_shell)

lemma obs_detect [simp]: "flow_obs (trace (snd (detect env p a t s))) = flow_obs (trace s)"
  by (simp add: trace_detect)

lemma obs_click_coordinate [simp]:
  "flow_obs (trace (snd (click_coordinate env x y s))) = flow_obs (trace s)"
  by (simp add: click_coordinate_def split_beta split: option.split)

lemma obs_click_element_loop [simp]:
  "flow_obs (trace (snd (click_element_loop env n ec m thr as s))) = flow_obs (trace s)"
  by (induction as arbitrary: s) (simp_all add: split_beta split: option.split bool.split)

lemma obs_click_element [simp]:
  "flow_obs (trace (snd (click_element env cfg n m thr s))) = flow_obs (trace s)"
  by (simp add: click_element_def split: option.split)

lemma obs_press_del [simp]:
  "flow_obs (trace (snd (press_del env n s))) = flow_obs (trace s)"
  by (induction n arbitrary: s) (simp_all add: split_beta split: option.split)

lemma obs_input_coordinate_try [simp]:
  "flow_obs (trace (snd (input_coordinate_try env v s))) = flow_obs (trace s)"
  by (simp add: input_coordinate_try_def split_beta split: option.split)

lemma obs_input_coordinate [simp]:
  "flow_obs (trace (snd (input_coordinate env c v s))) = flow_obs (trace s)"
  by (simp add: input_coordinate_def split_beta split: option.split)

lemma obs_count_available_marches [simp]:
  "flow_obs (trace (snd (count_available_marches env cfg s))) = flow_obs (trace s)"
  by (simp add: count_available_marches_def Let_def split_beta split: option.split)

lemma obs_load_explored_ruins [simp]:
  "flow_obs (trace (snd (load_explored_ruins env s))) = flow_obs (trace s)"
  by (simp add: load_explored_ruins_def split_beta split: sum.split)

lemma obs_save_explored_ruins [simp]:
  "flow_obs (trace (save_explored_ruins env l s)) = flow_obs (trace s) @ [Saved l]"
  by (simp add: save_explored_ruins_def split_beta split: option.split)

lemma explore_click_stmt_returns:
  "fst (explore_click_stmt env cfg s) = Return (fst (click_element env cfg ''exploreNew'' 1 0.4 s))"
  by (simp add: explore_click_stmt_def split_beta split: bool.split)

lemma obs_explore_click_stmt:
  "flow_obs (trace (snd (explore_click_stmt env cfg s))) =
     flow_obs (trace s) @ (if fst (explore_click_stmt env cfg s) = Return True then [Success] else [])"
  by (simp add: explore_click_stmt_def split_beta split: bool.split)

lemma search_then_any:
  "search_ruin_at_coordinate_then rest env cfg x y s = search_ruin_at_coordinate env cfg x y s"
  by (simp add: search_ruin_at_coordinate_def search_ruin_at_coordinate_then_def
      explore_click_stmt_def split_beta split: sum.split option.split bool.split completion.split)

lemma obs_search:
  "flow_obs (trace (snd (search_ruin_at_coordinate env cfg x y s))) =
     flow_obs (trace s) @ Probe x y #
       (if fst (search_ruin_at_coordinate env cfg x y s) = Inr True then [Success] else [])"
  unfolding search_then_any [of "\<lambda>s. (Inr False, s)", symmetric]
  by (simp add: search_ruin_at_coordinate_then_def split_beta obs_explore_click_stmt
      explore_click_stmt_returns split: sum.split option.split bool.split completion.split)

section \<open>What the machine says about a sequence of observations\<close>

lemma step_None [simp]: "step B None ob = None"
  by (simp add: step_def)

lemma track_simps [simp]:
  "track B st [] = st"
  "track B st (ob # X) = track B (step B st ob) X"
  "track B st (X @ Y) = track B (track B st X) Y"
  "track B None X = None"
proof -
  show "track B None X = None"
    by (induction X) (simp_all add: track_def step_def)
qed (simp_all add: track_def)

lemma probed_append [simp]: "probed (X @ Y) = probed X @ probed Y"
  by (induction X rule: probed.induct) simp_all

lemma n_success_append [simp]: "n_success (X @ Y) = n_success X + n_success Y"
  by (induction X rule: n_success.induct) simp_all

lemma saved_append [simp]: "saved (X @ Y) = saved X @ saved Y"
  by (induction X rule: saved.induct) simp_all

lemma keys_simps [simp]:
  "keys [] = []" "keys ((x, y) # cs) = coord_key x y # keys cs" "keys (cs @ ds) = keys cs @ keys ds"
  by (simp_all add: keys_def)

lemma pending_simps [simp]: "pending Idle = []" "pending (Probing x y b) = [coord_key x y]"
  by (simp_all add: pending_def)

lemma step_Some:
  "step B (Some (u, E, ph)) ob = Some (u', E', ph') \<Longrightarrow>
     u' = u + int (n_success [ob]) \<and>
     E' @ pending ph' = E @ pending ph @ keys (probed [ob]) \<and>
     E' = last (E # saved [ob]) \<and>
     set (keys (probed [ob])) \<inter> set (E @ pending ph) = {}"
  by (cases ob; cases ph) (auto simp: step_def split: if_splits)

lemma track_used:
  "track B (Some (u, E, ph)) X = Some (u', E', ph') \<Longrightarrow> u' = u + int (n_success X)"
proof (induction X arbitrary: u E ph)
  case Nil
  then show ?case by simp
next
  case (Cons ob X)
  then obtain u1 E1 ph1 where st: "step B (Some (u, E, ph)) ob = Some (u1, E1, ph1)"
    by (cases "step B (Some (u, E, ph)) ob") auto
  with Cons.prems have "track B (Some (u1, E1, ph1)) X = Some (u', E', ph')" by simp
  from Cons.IH [OF this] step_Some [OF st] show ?case
    by (cases ob) auto
qed

lemma track_explored:
  "track B (Some (u, E, ph)) X = Some (u', E', ph') \<Longrightarrow>
     E' @ pending ph' = E @ pending ph @ keys (probed X)"
proof (induction X arbitrary: u E ph)
  case Nil
  then show ?case by simp
next
  case (Cons ob X)
  then obtain u1 E1 ph1 where st: "step B (Some (u, E, ph)) ob = Some (u1, E1, ph1)"
    by (cases "step B (Some (u, E, ph)) ob") auto
  with Cons.prems have "track B (Some (u1, E1, ph1)) X = Some (u', E', ph')" by simp
  from Cons.IH [OF this] step_Some [OF st] show ?case
    by (cases ob) auto
qed

lemma track_explored_after:
  "track B (Some (u, E, ph)) X = Some (u', E', ph') \<Longrightarrow> E' = explored_after E X"
proof (induction X arbitrary: u E ph)
  case Nil
  then show ?case by (simp add: explored_after_def)
next
  case (Cons ob X)
  then obtain u1 E1 ph1 where st: "step B (Some (u, E, ph)) ob = Some (u1, E1, ph1)"
    by (cases "step B (Some (u, E, ph)) ob") auto
  with Cons.prems have "track B (Some (u1, E1, ph1)) X = Some (u', E', ph')" by simp
  from Cons.IH [OF this] step_Some [OF st] show ?case
    by (cases ob) (auto simp: explored_after_def)
qed

lemma track_fresh:
  "track B (Some (u, E, ph)) X = Some (u', E', ph') \<Longrightarrow>
     set (keys (probed X)) \<inter> set (E @ pending ph) = {} \<and> distinct (keys (probed X))"
proof (induction X arbitrary: u E ph)
  case Nil
  then show ?case by simp
next
  case (Cons ob X)
  then obtain u1 E1 ph1 where st: "step B (Some (u, E, ph)) ob = Some (u1, E1, ph1)"
    by (cases "step B (Some (u, E, ph)) ob") auto
  with Cons.prems have "track B (Some (u1, E1, ph1)) X = Some (u', E', ph')" by simp
  from Cons.IH [OF this] have ih: "set (keys (probed X)) \<inter> set (E1 @ pending ph1) = {}"
    "distinct (keys (probed X))" by auto
  from st ih show ?case
    by (cases ob; cases ph) (auto simp: step_def split: if_splits)
qed

lemma track_budget:
  "track B (Some (u, E, ph)) (pre @ Probe x y # post) = Some st' \<Longrightarrow> u + int (n_success pre) < B"
proof -
  assume a: "track B (Some (u, E, ph)) (pre @ Probe x y # post) = Some st'"
  then obtain u1 E1 ph1 where mid: "track B (Some (u, E, ph)) pre = Some (u1, E1, ph1)"
    by (cases "track B (Some (u, E, ph)) pre") auto
  from a mid have "step B (Some (u1, E1, ph1)) (Probe x y) \<noteq> None"
    by (cases "step B (Some (u1, E1, ph1)) (Probe x y)") auto
  then have "u1 < B" by (cases ph1) (auto simp: step_def split: if_splits)
  with track_used [OF mid] show ?thesis by simp
qed

lemma track_save_follows:
  assumes "track B (Some (u, E, Idle)) (pre @ Probe x y # post) = Some (u', E', ph')"
  shows "(\<exists>post'. post = Saved (E @ keys (probed pre) @ [coord_key x y]) # post')
       \<or> (\<exists>post'. post = Success # Saved (E @ keys (probed pre) @ [coord_key x y]) # post')
       \<or> (post = [] \<and> ph' = Probing x y False)
       \<or> (post = [Success] \<and> ph' = Probing x y True)"
proof -
  obtain u1 E1 ph1 where mid: "track B (Some (u, E, Idle)) pre = Some (u1, E1, ph1)"
    using assms by (cases "track B (Some (u, E, Idle)) pre") auto
  from assms mid have nn: "track B (step B (Some (u1, E1, ph1)) (Probe x y)) post = Some (u', E', ph')"
    by simp
  then have idle: "ph1 = Idle" and st: "step B (Some (u1, E1, ph1)) (Probe x y) = Some (u1, E1, Probing x y False)"
    by (cases ph1; auto simp: step_def split: if_splits)+
  from track_explored [OF mid] idle have E1: "E1 = E @ keys (probed pre)" by simp
  from nn st have run: "track B (Some (u1, E1, Probing x y False)) post = Some (u', E', ph')" by simp
  show ?thesis
  proof (cases post)
    case Nil
    with run show ?thesis by simp
  next
    case (Cons ob post1)
    show ?thesis
    proof (cases ob)
      case (Probe a b)
      with run Cons show ?thesis by (simp add: step_def)
    next
      case Success
      with run Cons have run2: "track B (Some (u1 + 1, E1, Probing x y True)) post1 = Some (u', E', ph')"
        by (simp add: step_def)
      show ?thesis
      proof (cases post1)
        case Nil
        with run2 Cons Success show ?thesis by simp
      next
        case (Cons ob2 post2)
        with run2 have "step B (Some (u1 + 1, E1, Probing x y True)) ob2 \<noteq> None"
          by (cases "step B (Some (u1 + 1, E1, Probing x y True)) ob2") auto
        then have "ob2 = Saved (E1 @ [coord_key x y])"
          by (cases ob2) (auto simp: step_def split: if_splits)
        with E1 \<open>post = ob # post1\<close> Success Cons show ?thesis by simp
      qed
    next
      case (Saved l)
      with run Cons have "step B (Some (u1, E1, Probing x y False)) (Saved l) \<noteq> None"
        by (cases "step B (Some (u1, E1, Probing x y False)) (Saved l)") auto
      then have "l = E1 @ [coord_key x y]" by (auto simp: step_def split: if_splits)
      with E1 Cons Saved show ?thesis by simp
    qed
  qed
qed

section \<open>Properties of the walk\<close>

lemma walk_break:
  "B \<le> u \<Longrightarrow> walk B cs u E X = (if X = [] then Walked u E else Stray)"
  by (cases cs) auto

lemma walk_fresh_cases:
  assumes "\<not> B \<le> u" and "coord_key x y \<notin> set E" and "walk B ((x, y) # cs) u E X = W"
    and "W \<noteq> Stray"
  shows "(X = [Probe x y] \<and> W = Aborted)
       \<or> (\<exists>X'. X = Probe x y # Saved (E @ [coord_key x y]) # X' \<and>
                walk B cs u (E @ [coord_key x y]) X' = W)
       \<or> (\<exists>X'. X = Probe x y # Success # Saved (E @ [coord_key x y]) # X' \<and>
                walk B cs (u + 1) (E @ [coord_key x y]) X' = W)"
  using assms by (auto split: list.splits obs.splits if_splits)

lemma walk_append_walked:
  "walk B cs u E X1 = Walked u1 E1 \<Longrightarrow> walk B (cs @ ds) u E (X1 @ X2) = walk B ds u1 E1 X2"
proof (induction cs arbitrary: u E X1)
  case Nil
  then show ?case by (simp split: if_splits)
next
  case (Cons c cs)
  obtain x y where c: "c = (x, y)" by (cases c)
  show ?case
  proof (cases "B \<le> u")
    case True
    with Cons.prems show ?thesis unfolding c by (simp add: walk_break split: if_splits)
  next
    case nb: False
    show ?thesis
    proof (cases "coord_key x y \<in> set E")
      case True
      with nb Cons.prems Cons.IH [of u E X1] show ?thesis unfolding c by simp
    next
      case False
      from Cons.prems have "walk B ((x, y) # cs) u E X1 = Walked u1 E1" unfolding c .
      from walk_fresh_cases [OF nb False this] consider
          X' where "X1 = Probe x y # Saved (E @ [coord_key x y]) # X'"
            "walk B cs u (E @ [coord_key x y]) X' = Walked u1 E1"
        | X' where "X1 = Probe x y # Success # Saved (E @ [coord_key x y]) # X'"
            "walk B cs (u + 1) (E @ [coord_key x y]) X' = Walked u1 E1"
        by auto
      then show ?thesis
      proof cases
        case 1
        from Cons.IH [OF 1(2)] 1(1) nb False show ?thesis unfolding c by simp
      next
        case 2
        from Cons.IH [OF 2(2)] 2(1) nb False show ?thesis unfolding c by simp
      qed
    qed
  qed
qed

lemma walk_append_aborted:
  "walk B cs u E X = Aborted \<Longrightarrow> walk B (cs @ ds) u E X = Aborted"
proof (induction cs arbitrary: u E X)
  case Nil
  then show ?case by (simp split: if_splits)
next
  case (Cons c cs)
  obtain x y where c: "c = (x, y)" by (cases c)
  show ?case
  proof (cases "B \<le> u")
    case True
    with Cons.prems show ?thesis unfolding c by (simp split: if_splits)
  next
    case nb: False
    show ?thesis
    proof (cases "coord_key x y \<in> set E")
      case True
      with nb Cons.prems Cons.IH [of u E X] show ?thesis unfolding c by simp
    next
      case False
      from Cons.prems have "walk B ((x, y) # cs) u E X = Aborted" unfolding c .
      from walk_fresh_cases [OF nb False this] consider "X = [Probe x y]"
        | X' where "X = Probe x y # Saved (E @ [coord_key x y]) # X'"
            "walk B cs u (E @ [coord_key x y]) X' = Aborted"
        | X' where "X = Probe x y # Success # Saved (E @ [coord_key x y]) # X'"
            "walk B cs (u + 1) (E @ [coord_key x y]) X' = Aborted"
        by auto
      then show ?thesis
      proof cases
        case 1
        with nb False show ?thesis unfolding c by simp
      next
        case 2
        from Cons.IH [OF 2(2)] 2(1) nb False show ?thesis unfolding c by simp
      next
        case 3
        from Cons.IH [OF 3(2)] 3(1) nb False show ?thesis unfolding c by simp
      qed
    qed
  qed
qed

lemma walk_walked:
  "walk B cs u E X = Walked u1 E1 \<Longrightarrow> u1 = u + int (n_success X) \<and> E1 = E @ keys (probed X)"
proof (induction cs arbitrary: u E X)
  case Nil
  then show ?case by (simp split: if_splits)
next
  case (Cons c cs)
  obtain x y where c: "c = (x, y)" by (cases c)
  show ?case
  proof (cases "B \<le> u")
    case True
    with Cons.prems show ?thesis unfolding c by (simp split: if_splits)
  next
    case nb: False
    show ?thesis
    proof (cases "coord_key x y \<in> set E")
      case True
      with nb Cons.prems Cons.IH [of u E X] show ?thesis unfolding c by simp
    next
      case False
      from Cons.prems have "walk B ((x, y) # cs) u E X = Walked u1 E1" unfolding c .
      from walk_fresh_cases [OF nb False this] consider
          X' where "X = Probe x y # Saved (E @ [coord_key x y]) # X'"
            "walk B cs u (E @ [coord_key x y]) X' = Walked u1 E1"
        | X' where "X = Probe x y # Success # Saved (E @ [coord_key x y]) # X'"
            "walk B cs (u + 1) (E @ [coord_key x y]) X' = Walked u1 E1"
        by auto
      then show ?thesis
      proof cases
        case 1
        from Cons.IH [OF 1(2)] 1(1) show ?thesis by simp
      next
        case 2
        from Cons.IH [OF 2(2)] 2(1) show ?thesis by simp
      qed
    qed
  qed
qed

lemma walk_outcome_compose:
  assumes "walk B cs (marches_used v) (explored_ruins v) X1 = walk_outcome (Inr v1)"
    and "walk B ds (marches_used v1) (explored_ruins v1) X2 = walk_outcome r"
  shows "walk B (cs @ ds) (marches_used v) (explored_ruins v) (X1 @ X2) = walk_outcome r"
  using assms walk_append_walked [of B cs "marches_used v" "explored_ruins v" X1
      "marches_used v1" "explored_ruins v1" ds X2]
  by (simp add: walk_outcome_def)

lemma walk_outcome_raise:
  "walk B cs u E X = walk_outcome (Inl e) \<Longrightarrow> walk B (cs @ ds) u E X = walk_outcome (Inl e)"
  by (simp add: walk_outcome_def walk_append_aborted)

section \<open>The loops of the flow follow the machine\<close>

lemma explore_coordinates_unfold:
  assumes "\<not> B \<le> marches_used v" and "coord_key x y \<notin> set (explored_ruins v)"
  shows "explore_coordinates env cfg B ((x, y) # cs) v s =
     (case fst (search_ruin_at_coordinate env cfg x y s) of
        Inl e \<Rightarrow> (Inl e, snd (search_ruin_at_coordinate env cfg x y s))
      | Inr found \<Rightarrow>
          explore_coordinates env cfg B cs
            ((if found then v\<lparr>marches_used := marches_used v + 1,
                               total_explored := total_explored v + 1\<rparr> else v)
               \<lparr>explored_ruins := explored_ruins v @ [coord_key x y]\<rparr>)
            (sleep env 1 (save_explored_ruins env (explored_ruins v @ [coord_key x y])
               (if found
                then log_msg (MarchStarted (marches_used v + 1) B x y)
                       (snd (search_ruin_at_coordinate env cfg x y s))
                else snd (search_ruin_at_coordinate env cfg x y s)))))"
  using assms by (simp add: split_beta split: sum.split)

lemma explore_coordinates_run:
  "\<exists>X. flow_obs (trace (snd (explore_coordinates env cfg B cs v s))) = flow_obs (trace s) @ X
       \<and> loop_post B cs v (fst (explore_coordinates env cfg B cs v s)) X"
proof (induction cs arbitrary: v s)
  case Nil
  show ?case by (rule exI [of _ "[]"]) (simp add: loop_post_def)
next
  case (Cons c cs)
  obtain x y where c: "c = (x, y)" by (cases c)
  have "\<exists>X. flow_obs (trace (snd (explore_coordinates env cfg B ((x, y) # cs) v s))) = flow_obs (trace s) @ X
       \<and> loop_post B ((x, y) # cs) v (fst (explore_coordinates env cfg B ((x, y) # cs) v s)) X"
  proof (cases "B \<le> marches_used v")
    case True
    then show ?thesis by (intro exI [of _ "[]"]) (simp add: loop_post_def)
  next
    case nb: False
    show ?thesis
    proof (cases "coord_key x y \<in> set (explored_ruins v)")
      case True
      from Cons.IH [of v s] obtain X where
        X: "flow_obs (trace (snd (explore_coordinates env cfg B cs v s))) = flow_obs (trace s) @ X"
           "loop_post B cs v (fst (explore_coordinates env cfg B cs v s)) X" by blast
      have eq: "explore_coordinates env cfg B ((x, y) # cs) v s = explore_coordinates env cfg B cs v s"
        using nb True by simp
      have "loop_post B ((x, y) # cs) v (fst (explore_coordinates env cfg B cs v s)) X"
      proof (cases "fst (explore_coordinates env cfg B cs v s)")
        case (Inl e)
        with X(2) show ?thesis by (auto simp: loop_post_def)
      next
        case (Inr v')
        with X(2) have tr: "track B (Some (marches_used v, explored_ruins v, Idle)) X =
            Some (marches_used v', explored_ruins v', Idle)" by (simp add: loop_post_def)
        from track_explored [OF tr] have "explored_ruins v' = explored_ruins v @ keys (probed X)"
          by simp
        with True X(2) Inr show ?thesis by (auto simp: loop_post_def)
      qed
      with X(1) eq show ?thesis by auto
    next
      case fresh: False
      let ?p = "search_ruin_at_coordinate env cfg x y s"
      note unf = explore_coordinates_unfold [OF nb fresh, of env cfg cs s]
      show ?thesis
      proof (cases "fst ?p")
        case (Inl e)
        then have res: "explore_coordinates env cfg B ((x, y) # cs) v s = (Inl e, snd ?p)"
          unfolding unf by simp
        have ob: "flow_obs (trace (snd ?p)) = flow_obs (trace s) @ [Probe x y]"
          using Inl by (simp add: obs_search)
        show ?thesis unfolding res
          using ob nb fresh by (intro exI [of _ "[Probe x y]"]) (simp add: loop_post_def step_def)
      next
        case (Inr found)
        let ?v2 = "(if found then v\<lparr>marches_used := marches_used v + 1,
                               total_explored := total_explored v + 1\<rparr> else v)
               \<lparr>explored_ruins := explored_ruins v @ [coord_key x y]\<rparr>"
        let ?s4 = "sleep env 1 (save_explored_ruins env (explored_ruins v @ [coord_key x y])
               (if found
                then log_msg (MarchStarted (marches_used v + 1) B x y) (snd ?p)
                else snd ?p))"
        let ?blk = "Probe x y # (if found then [Success] else []) @ [Saved (explored_ruins v @ [coord_key x y])]"
        have res: "explore_coordinates env cfg B ((x, y) # cs) v s = explore_coordinates env cfg B cs ?v2 ?s4"
          unfolding unf using Inr by simp
        have ob: "flow_obs (trace ?s4) = flow_obs (trace s) @ ?blk"
          using Inr by (simp add: obs_search)
        have tr: "track B (Some (marches_used v, explored_ruins v, Idle)) ?blk =
                    Some (marches_used ?v2, explored_ruins ?v2, Idle)"
          using nb fresh by (simp add: step_def)
        from Cons.IH [of ?v2 ?s4] obtain X where
          X: "flow_obs (trace (snd (explore_coordinates env cfg B cs ?v2 ?s4))) = flow_obs (trace ?s4) @ X"
             "loop_post B cs ?v2 (fst (explore_coordinates env cfg B cs ?v2 ?s4)) X" by blast
        have comp: "track B (Some (marches_used v, explored_ruins v, Idle)) (?blk @ X) =
            track B (Some (marches_used ?v2, explored_ruins ?v2, Idle)) X"
          by (simp only: track_simps(3) tr)
        have sub: "subseq (probed (?blk @ X)) ((x, y) # cs)"
          using X(2) by (simp add: loop_post_def)
        have "loop_post B ((x, y) # cs) v (fst (explore_coordinates env cfg B cs ?v2 ?s4)) (?blk @ X)"
        proof (cases "fst (explore_coordinates env cfg B cs ?v2 ?s4)")
          case (Inl e)
          with X(2) sub show ?thesis unfolding loop_post_def comp
            by (simp only: sum.case simp_thms)
        next
          case (Inr v')
          with X(2) have t2: "track B (Some (marches_used ?v2, explored_ruins ?v2, Idle)) X =
              Some (marches_used v', explored_ruins v', Idle)"
            and fin: "B \<le> marches_used v' \<or> set (keys cs) \<subseteq> set (explored_ruins v')"
            by (simp_all add: loop_post_def)
          from track_explored [OF t2] have "explored_ruins v' = explored_ruins ?v2 @ keys (probed X)"
            by simp
          then have "coord_key x y \<in> set (explored_ruins v')" by simp
          with fin have "B \<le> marches_used v' \<or> set (keys ((x, y) # cs)) \<subseteq> set (explored_ruins v')"
            by auto
          with t2 sub Inr show ?thesis unfolding loop_post_def comp
            by (simp only: sum.case simp_thms)
        qed
        with X(1) ob res show ?thesis by (intro exI [of _ "?blk @ X"]) simp
      qed
    qed
  qed
  then show ?case unfolding c .
qed

lemma loop_post_break: "B \<le> marches_used v \<Longrightarrow> loop_post B cs v (Inr v) []"
  by (simp add: loop_post_def)

lemma loop_post_raise: "loop_post B cs v (Inl e) X \<Longrightarrow> loop_post B (cs @ ds) v (Inl e) X"
  by (auto simp: loop_post_def intro: list_emb_prefix)

lemma loop_post_compose:
  assumes "loop_post B cs v (Inr v1) X1" and "loop_post B ds v1 r X2"
  shows "loop_post B (cs @ ds) v r (X1 @ X2)"
proof -
  from assms(1) have t1: "track B (Some (marches_used v, explored_ruins v, Idle)) X1 =
      Some (marches_used v1, explored_ruins v1, Idle)"
    and f1: "B \<le> marches_used v1 \<or> set (keys cs) \<subseteq> set (explored_ruins v1)"
    and s1: "subseq (probed X1) cs"
    by (simp_all add: loop_post_def)
  from assms(2) have s2: "subseq (probed X2) ds" by (simp add: loop_post_def)
  from s1 s2 have sub: "subseq (probed (X1 @ X2)) (cs @ ds)"
    by (simp add: list_emb_append_mono)
  have comp: "track B (Some (marches_used v, explored_ruins v, Idle)) (X1 @ X2) =
      track B (Some (marches_used v1, explored_ruins v1, Idle)) X2"
    by (simp only: track_simps(3) t1)
  show ?thesis
  proof (cases r)
    case (Inl e)
    with assms(2) sub show ?thesis unfolding loop_post_def comp
      by (simp only: sum.case simp_thms)
  next
    case (Inr v')
    with assms(2) have t2: "track B (Some (marches_used v1, explored_ruins v1, Idle)) X2 =
        Some (marches_used v', explored_ruins v', Idle)"
      and f2: "B \<le> marches_used v' \<or> set (keys ds) \<subseteq> set (explored_ruins v')"
      by (simp_all add: loop_post_def)
    from track_used [OF t2] have "marches_used v1 \<le> marches_used v'" by simp
    moreover from track_explored [OF t2] have "set (explored_ruins v1) \<subseteq> set (explored_ruins v')"
      by auto
    ultimately have "B \<le> marches_used v' \<or> set (keys (cs @ ds)) \<subseteq> set (explored_ruins v')"
      using f1 f2 by auto
    with t2 sub Inr show ?thesis unfolding loop_post_def comp
      by (simp only: sum.case simp_thms)
  qed
qed

lemma explore_areas_run:
  "\<exists>X. flow_obs (trace (snd (explore_areas env cfg B areas v s))) = flow_obs (trace s) @ X
       \<and> loop_post B (areas_coordinates areas) v (fst (explore_areas env cfg B areas v s)) X"
proof (induction areas arbitrary: v s)
  case Nil
  show ?case by (rule exI [of _ "[]"]) (simp add: loop_post_def areas_coordinates_def)
next
  case (Cons a areas)
  obtain area_name cs where a: "a = (area_name, cs)" by (cases a)
  have split: "areas_coordinates ((area_name, cs) # areas) = cs @ areas_coordinates areas"
    by (simp add: areas_coordinates_def)
  have "\<exists>X. flow_obs (trace (snd (explore_areas env cfg B ((area_name, cs) # areas) v s))) = flow_obs (trace s) @ X
       \<and> loop_post B (cs @ areas_coordinates areas) v
            (fst (explore_areas env cfg B ((area_name, cs) # areas) v s)) X"
  proof (cases "B \<le> marches_used v")
    case True
    then show ?thesis by (intro exI [of _ "[]"]) (simp add: loop_post_break)
  next
    case nb: False
    let ?s1 = "log_msg (CheckingArea area_name) s"
    let ?c = "explore_coordinates env cfg B cs v ?s1"
    from explore_coordinates_run [of env cfg B cs v ?s1] obtain X1 where
      X1: "flow_obs (trace (snd ?c)) = flow_obs (trace s) @ X1" "loop_post B cs v (fst ?c) X1"
      by auto
    show ?thesis
    proof (cases "fst ?c")
      case (Inl e)
      with nb have res: "explore_areas env cfg B ((area_name, cs) # areas) v s = (Inl e, snd ?c)"
        by (simp add: split_beta)
      from X1 Inl show ?thesis unfolding res
        by (intro exI [of _ X1]) (simp add: loop_post_raise)
    next
      case (Inr v1)
      with nb have res: "explore_areas env cfg B ((area_name, cs) # areas) v s =
          explore_areas env cfg B areas v1 (snd ?c)"
        by (simp add: split_beta)
      from Cons.IH [of v1 "snd ?c"] obtain X2 where
        X2: "flow_obs (trace (snd (explore_areas env cfg B areas v1 (snd ?c)))) = flow_obs (trace (snd ?c)) @ X2"
            "loop_post B (areas_coordinates areas) v1 (fst (explore_areas env cfg B areas v1 (snd ?c))) X2"
        by blast
      from X1(2) Inr have "loop_post B cs v (Inr v1) X1" by simp
      from loop_post_compose [OF this X2(2)] X1(1) X2(1) show ?thesis unfolding res
        by (intro exI [of _ "X1 @ X2"]) simp
    qed
  qed
  then show ?case unfolding a split .
qed

lemma explore_levels_run:
  "\<exists>X. flow_obs (trace (snd (explore_levels env cfg B levels v s))) = flow_obs (trace s) @ X
       \<and> loop_post B (catalog_coordinates levels) v (fst (explore_levels env cfg B levels v s)) X"
proof (induction levels arbitrary: v s)
  case Nil
  show ?case by (rule exI [of _ "[]"]) (simp add: loop_post_def catalog_coordinates_def)
next
  case (Cons a levels)
  obtain level areas where a: "a = (level, areas)" by (cases a)
  have split: "catalog_coordinates ((level, areas) # levels) =
      areas_coordinates areas @ catalog_coordinates levels"
    by (simp add: catalog_coordinates_def)
  have "\<exists>X. flow_obs (trace (snd (explore_levels env cfg B ((level, areas) # levels) v s))) = flow_obs (trace s) @ X
       \<and> loop_post B (areas_coordinates areas @ catalog_coordinates levels) v
            (fst (explore_levels env cfg B ((level, areas) # levels) v s)) X"
  proof (cases "B \<le> marches_used v")
    case True
    then show ?thesis by (intro exI [of _ "[]"]) (simp add: loop_post_break)
  next
    case nb: False
    let ?s1 = "log_msg (SearchingLevel level) s"
    let ?c = "explore_areas env cfg B areas v ?s1"
    from explore_areas_run [of env cfg B areas v ?s1] obtain X1 where
      X1: "flow_obs (trace (snd ?c)) = flow_obs (trace s) @ X1"
          "loop_post B (areas_coordinates areas) v (fst ?c) X1"
      by auto
    show ?thesis
    proof (cases "fst ?c")
      case (Inl e)
      with nb have res: "explore_levels env cfg B ((level, areas) # levels) v s = (Inl e, snd ?c)"
        by (simp add: split_beta)
      from X1 Inl show ?thesis unfolding res
        by (intro exI [of _ X1]) (simp add: loop_post_raise)
    next
      case (Inr v1)
      with nb have res: "explore_levels env cfg B ((level, areas) # levels) v s =
          explore_levels env cfg B levels v1 (snd ?c)"
        by (simp add: split_beta)
      from Cons.IH [of v1 "snd ?c"] obtain X2 where
        X2: "flow_obs (trace (snd (explore_levels env cfg B levels v1 (snd ?c)))) = flow_obs (trace (snd ?c)) @ X2"
            "loop_post B (catalog_coordinates levels) v1 (fst (explore_levels env cfg B levels v1 (snd ?c))) X2"
        by blast
      from X1(2) Inr have "loop_post B (areas_coordinates areas) v (Inr v1) X1" by simp
      from loop_post_compose [OF this X2(2)] X1(1) X2(1) show ?thesis unfolding res
        by (intro exI [of _ "X1 @ X2"]) simp
    qed
  qed
  then show ?case unfolding a split .
qed

section \<open>The loops of the flow walk the catalog\<close>

lemma explore_coordinates_walk:
  "\<exists>X. flow_obs (trace (snd (explore_coordinates env cfg B cs v s))) = flow_obs (trace s) @ X
       \<and> walk B cs (marches_used v) (explored_ruins v) X =
           walk_outcome (fst (explore_coordinates env cfg B cs v s))"
proof (induction cs arbitrary: v s)
  case Nil
  show ?case by (rule exI [of _ "[]"]) (simp add: walk_outcome_def)
next
  case (Cons c cs)
  obtain x y where c: "c = (x, y)" by (cases c)
  have "\<exists>X. flow_obs (trace (snd (explore_coordinates env cfg B ((x, y) # cs) v s))) = flow_obs (trace s) @ X
       \<and> walk B ((x, y) # cs) (marches_used v) (explored_ruins v) X =
           walk_outcome (fst (explore_coordinates env cfg B ((x, y) # cs) v s))"
  proof (cases "B \<le> marches_used v")
    case True
    then show ?thesis by (intro exI [of _ "[]"]) (simp add: walk_outcome_def)
  next
    case nb: False
    show ?thesis
    proof (cases "coord_key x y \<in> set (explored_ruins v)")
      case True
      from Cons.IH [of v s] obtain X where
        X: "flow_obs (trace (snd (explore_coordinates env cfg B cs v s))) = flow_obs (trace s) @ X"
           "walk B cs (marches_used v) (explored_ruins v) X =
              walk_outcome (fst (explore_coordinates env cfg B cs v s))" by blast
      have eq: "explore_coordinates env cfg B ((x, y) # cs) v s = explore_coordinates env cfg B cs v s"
        using nb True by simp
      from X nb True show ?thesis unfolding eq by (intro exI [of _ X]) simp
    next
      case fresh: False
      let ?p = "search_ruin_at_coordinate env cfg x y s"
      note unf = explore_coordinates_unfold [OF nb fresh, of env cfg cs s]
      show ?thesis
      proof (cases "fst ?p")
        case (Inl e)
        then have res: "explore_coordinates env cfg B ((x, y) # cs) v s = (Inl e, snd ?p)"
          unfolding unf by simp
        have ob: "flow_obs (trace (snd ?p)) = flow_obs (trace s) @ [Probe x y]"
          using Inl by (simp add: obs_search)
        show ?thesis unfolding res
          using ob nb fresh by (intro exI [of _ "[Probe x y]"]) (simp add: walk_outcome_def)
      next
        case (Inr found)
        let ?v2 = "(if found then v\<lparr>marches_used := marches_used v + 1,
                               total_explored := total_explored v + 1\<rparr> else v)
               \<lparr>explored_ruins := explored_ruins v @ [coord_key x y]\<rparr>"
        let ?s4 = "sleep env 1 (save_explored_ruins env (explored_ruins v @ [coord_key x y])
               (if found
                then log_msg (MarchStarted (marches_used v + 1) B x y) (snd ?p)
                else snd ?p))"
        let ?blk = "Probe x y # (if found then [Success] else []) @ [Saved (explored_ruins v @ [coord_key x y])]"
        have res: "explore_coordinates env cfg B ((x, y) # cs) v s = explore_coordinates env cfg B cs ?v2 ?s4"
          unfolding unf using Inr by simp
        have ob: "flow_obs (trace ?s4) = flow_obs (trace s) @ ?blk"
          using Inr by (simp add: obs_search)
        from Cons.IH [of ?v2 ?s4] obtain X where
          X: "flow_obs (trace (snd (explore_coordinates env cfg B cs ?v2 ?s4))) = flow_obs (trace ?s4) @ X"
             "walk B cs (marches_used ?v2) (explored_ruins ?v2) X =
                walk_outcome (fst (explore_coordinates env cfg B cs ?v2 ?s4))" by blast
        have "walk B ((x, y) # cs) (marches_used v) (explored_ruins v) (?blk @ X) =
            walk B cs (marches_used ?v2) (explored_ruins ?v2) X"
          using nb fresh by simp
        with X ob show ?thesis unfolding res by (intro exI [of _ "?blk @ X"]) simp
      qed
    qed
  qed
  then show ?case unfolding c .
qed

lemma explore_areas_walk:
  "\<exists>X. flow_obs (trace (snd (explore_areas env cfg B areas v s))) = flow_obs (trace s) @ X
       \<and> walk B (areas_coordinates areas) (marches_used v) (explored_ruins v) X =
           walk_outcome (fst (explore_areas env cfg B areas v s))"
proof (induction areas arbitrary: v s)
  case Nil
  show ?case by (rule exI [of _ "[]"]) (simp add: walk_outcome_def areas_coordinates_def)
next
  case (Cons a areas)
  obtain area_name cs where a: "a = (area_name, cs)" by (cases a)
  have split: "areas_coordinates ((area_name, cs) # areas) = cs @ areas_coordinates areas"
    by (simp add: areas_coordinates_def)
  have "\<exists>X. flow_obs (trace (snd (explore_areas env cfg B ((area_name, cs) # areas) v s))) = flow_obs (trace s) @ X
       \<and> walk B (cs @ areas_coordinates areas) (marches_used v) (explored_ruins v) X =
            walk_outcome (fst (explore_areas env cfg B ((area_name, cs) # areas) v s))"
  proof (cases "B \<le> marches_used v")
    case True
    then show ?thesis by (intro exI [of _ "[]"]) (simp add: walk_break walk_outcome_def)
  next
    case nb: False
    let ?s1 = "log_msg (CheckingArea area_name) s"
    let ?c = "explore_coordinates env cfg B cs v ?s1"
    from explore_coordinates_walk [of env cfg B cs v ?s1] obtain X1 where
      X1: "flow_obs (trace (snd ?c)) = flow_obs (trace s) @ X1"
          "walk B cs (marches_used v) (explored_ruins v) X1 = walk_outcome (fst ?c)"
      by auto
    show ?thesis
    proof (cases "fst ?c")
      case (Inl e)
      with nb have res: "explore_areas env cfg B ((area_name, cs) # areas) v s = (Inl e, snd ?c)"
        by (simp add: split_beta)
      from X1 Inl show ?thesis unfolding res
        by (intro exI [of _ X1]) (simp add: walk_outcome_raise)
    next
      case (Inr v1)
      with nb have res: "explore_areas env cfg B ((area_name, cs) # areas) v s =
          explore_areas env cfg B areas v1 (snd ?c)"
        by (simp add: split_beta)
      from Cons.IH [of v1 "snd ?c"] obtain X2 where
        X2: "flow_obs (trace (snd (explore_areas env cfg B areas v1 (snd ?c)))) = flow_obs (trace (snd ?c)) @ X2"
            "walk B (areas_coordinates areas) (marches_used v1) (explored_ruins v1) X2 =
               walk_outcome (fst (explore_areas env cfg B areas v1 (snd ?c)))"
        by blast
      from X1(2) Inr have "walk B cs (marches_used v) (explored_ruins v) X1 = walk_outcome (Inr v1)"
        by simp
      from walk_outcome_compose [OF this X2(2)] X1(1) X2(1) show ?thesis unfolding res
        by (intro exI [of _ "X1 @ X2"]) simp
    qed
  qed
  then show ?case unfolding a split .
qed

lemma explore_levels_walk:
  "\<exists>X. flow_obs (trace (snd (explore_levels env cfg B levels v s))) = flow_obs (trace s) @ X
       \<and> walk B (catalog_coordinates levels) (marches_used v) (explored_ruins v) X =
           walk_outcome (fst (explore_levels env cfg B levels v s))"
proof (induction levels arbitrary: v s)
  case Nil
  show ?case by (rule exI [of _ "[]"]) (simp add: walk_outcome_def catalog_coordinates_def)
next
  case (Cons a levels)
  obtain level areas where a: "a = (level, areas)" by (cases a)
  have split: "catalog_coordinates ((level, areas) # levels) =
      areas_coordinates areas @ catalog_coordinates levels"
    by (simp add: catalog_coordinates_def)
  have "\<exists>X. flow_obs (trace (snd (explore_levels env cfg B ((level, areas) # levels) v s))) = flow_obs (trace s) @ X
       \<and> walk B (areas_coordinates areas @ catalog_coordinates levels) (marches_used v) (explored_ruins v) X =
            walk_outcome (fst (explore_levels env cfg B ((level, areas) # levels) v s))"
  proof (cases "B \<le> marches_used v")
    case True
    then show ?thesis by (intro exI [of _ "[]"]) (simp add: walk_break walk_outcome_def)
  next
    case nb: False
    let ?s1 = "log_msg (SearchingLevel level) s"
    let ?c = "explore_areas env cfg B areas v ?s1"
    from explore_areas_walk [of env cfg B areas v ?s1] obtain X1 where
      X1: "flow_obs (trace (snd ?c)) = flow_obs (trace s) @ X1"
          "walk B (areas_coordinates areas) (marches_used v) (explored_ruins v) X1 = walk_outcome (fst ?c)"
      by auto
    show ?thesis
    proof (cases "fst ?c")
      case (Inl e)
      with nb have res: "explore_levels env cfg B ((level, areas) # levels) v s = (Inl e, snd ?c)"
        by (simp add: split_beta)
      from X1 Inl show ?thesis unfolding res
        by (intro exI [of _ X1]) (simp add: walk_outcome_raise)
    next
      case (Inr v1)
      with nb have res: "explore_levels env cfg B ((level, areas) # levels) v s =
          explore_levels env cfg B levels v1 (snd ?c)"
        by (simp add: split_beta)
      from Cons.IH [of v1 "snd ?c"] obtain X2 where
        X2: "flow_obs (trace (snd (explore_levels env cfg B levels v1 (snd ?c)))) = flow_obs (trace (snd ?c)) @ X2"
            "walk B (catalog_coordinates levels) (marches_used v1) (explored_ruins v1) X2 =
               walk_outcome (fst (explore_levels env cfg B levels v1 (snd ?c)))"
        by blast
      from X1(2) Inr have "walk B (areas_coordinates areas) (marches_used v) (explored_ruins v) X1 =
          walk_outcome (Inr v1)" by simp
      from walk_outcome_compose [OF this X2(2)] X1(1) X2(1) show ?thesis unfolding res
        by (intro exI [of _ "X1 @ X2"]) simp
    qed
  qed
  then show ?case unfolding a split .
qed

section \<open>Evaluating the model on concrete inputs\<close>

lemma str_nat_numeral [simp]:
  "str_nat (numeral k) =
     (if (numeral k :: nat) < 10 then [digit (numeral k)]
      else str_nat (numeral k div 10) @ [digit (numeral k mod 10)])"
  by (rule str_nat.simps)

lemma str_nat_small [simp]: "str_nat 0 = ''0''" "str_nat (Suc 0) = ''1''" "str_nat 1 = ''1''"
  by (simp_all add: str_nat.simps digit_def)

lemma press_del_numeral [simp]:
  "press_del env (numeral k) s =
     (case shell env ''input keyevent KEYCODE_DEL'' s of
        (Some e, s) \<Rightarrow> (Some e, s)
      | (None, s) \<Rightarrow> press_del env (pred_numeral k) (sleep env 0.05 s))"
  by (simp add: numeral_eq_Suc)

lemmas eval_defs =
  explore_ruins_flow_def count_available_marches_def load_explored_ruins_def
  save_explored_ruins_def search_ruin_at_coordinate_def search_ruin_at_coordinate_then_def
  explore_click_stmt_def input_coordinate_def input_coordinate_try_def click_element_def
  click_coordinate_def detect_def shell_def sleep_def log_msg_def emit_def get_element_def
  get_threshold_def coord_key_def str_def digit_def initial_def demo_env_def demo_config_def
  busy_config_def flow_budget_def flow_explored_def

section \<open>A run of the whole flow follows the machine\<close>

lemma explore_ruins_flow_run:
  "\<exists>X. flow_obs (trace (snd (explore_ruins_flow env cfg s))) = flow_obs (trace s) @ X
       \<and> flow_post (flow_budget env cfg s) (flow_explored env cfg s)
            (fst (explore_ruins_flow env cfg s)) X"
proof (cases "flow_budget env cfg s = 0")
  case True
  then show ?thesis
    by (intro exI [of _ "[]"])
       (simp add: explore_ruins_flow_def flow_budget_def flow_post_def split_beta)
next
  case nz: False
  let ?B = "flow_budget env cfg s"
  let ?E = "flow_explored env cfg s"
  let ?c = "count_available_marches env cfg (log_msg StartingFlow s)"
  let ?l = "load_explored_ruins env (log_msg (AvailableMarches ?B) (snd ?c))"
  let ?v0 = "\<lparr>marches_used = 0, total_explored = 0, explored_ruins = ?E\<rparr>"
  let ?s3 = "log_msg (PreviouslyExplored (length ?E)) (snd ?l)"
  let ?L = "explore_levels env cfg ?B load_ruin_coordinates ?v0 ?s3"
  have s3: "flow_obs (trace ?s3) = flow_obs (trace s)"
    by (simp add: flow_budget_def)
  from explore_levels_run [of env cfg ?B load_ruin_coordinates ?v0 ?s3] obtain X where
    X: "flow_obs (trace (snd ?L)) = flow_obs (trace s) @ X"
       "loop_post ?B (catalog_coordinates load_ruin_coordinates) ?v0 (fst ?L) X"
    unfolding s3 by blast
  show ?thesis
  proof (cases "fst ?L")
    case (Inl e)
    with nz have res: "explore_ruins_flow env cfg s = (Inl e, snd ?L)"
      by (simp add: explore_ruins_flow_def flow_budget_def flow_explored_def split_beta)
    from X Inl nz show ?thesis unfolding res
      by (intro exI [of _ X]) (simp add: flow_post_def loop_post_def)
  next
    case (Inr v')
    with nz have res: "fst (explore_ruins_flow env cfg s) = Inr (0 < marches_used v')"
      and ob: "flow_obs (trace (snd (explore_ruins_flow env cfg s))) = flow_obs (trace (snd ?L))"
      by (simp_all add: explore_ruins_flow_def flow_budget_def flow_explored_def split_beta
          split: bool.split)
    from X Inr nz show ?thesis unfolding res ob
      by (intro exI [of _ X]) (auto simp: flow_post_def loop_post_def)
  qed
qed

lemma initial_obs [simp]: "flow_obs (trace (initial w)) = []"
  by (simp add: initial_def)

lemma run_post:
  "flow_post (flow_budget env cfg (initial w)) (flow_explored env cfg (initial w))
     (run_result env cfg w) (run_obs env cfg w)"
  using explore_ruins_flow_run [of env cfg "initial w"]
  by (simp add: run_obs_def run_result_def)

lemma run_tracked:
  "\<exists>st. track (flow_budget env cfg (initial w)) (Some (0, flow_explored env cfg (initial w), Idle))
          (run_obs env cfg w) = Some st"
  using run_post [of env cfg w] by (auto simp: flow_post_def split: sum.splits)

lemma flow_loops_result:
  assumes "flow_budget env cfg s \<noteq> 0"
  shows "fst (explore_ruins_flow env cfg s) =
           (case fst (flow_loops env cfg s) of Inl e \<Rightarrow> Inl e | Inr v \<Rightarrow> Inr (0 < marches_used v))"
    and "flow_obs (trace (snd (explore_ruins_flow env cfg s))) =
           flow_obs (trace (snd (flow_loops env cfg s)))"
  using assms
  by (simp_all add: explore_ruins_flow_def flow_loops_def flow_budget_def flow_explored_def
      split_beta split: bool.split sum.split)

lemma explore_ruins_flow_walk:
  "\<exists>X. flow_obs (trace (snd (explore_ruins_flow env cfg s))) = flow_obs (trace s) @ X
       \<and> walk (flow_budget env cfg s) (catalog_coordinates load_ruin_coordinates) 0
              (flow_explored env cfg s) X =
           (case fst (explore_ruins_flow env cfg s) of
              Inl e \<Rightarrow> Aborted
            | Inr b \<Rightarrow> Walked (int (n_success X)) (flow_explored env cfg s @ keys (probed X)))"
proof (cases "flow_budget env cfg s = 0")
  case True
  then show ?thesis
    by (intro exI [of _ "[]"])
       (simp add: explore_ruins_flow_def flow_budget_def split_beta walk_break)
next
  case nz: False
  let ?B = "flow_budget env cfg s"
  let ?E = "flow_explored env cfg s"
  let ?cat = "catalog_coordinates load_ruin_coordinates"
  let ?L = "flow_loops env cfg s"
  let ?s3 = "log_msg (PreviouslyExplored (length ?E))
          (snd (load_explored_ruins env
                  (log_msg (AvailableMarches ?B)
                     (snd (count_available_marches env cfg (log_msg StartingFlow s))))))"
  have s3: "flow_obs (trace ?s3) = flow_obs (trace s)" by simp
  from explore_levels_walk [of env cfg ?B load_ruin_coordinates
      "\<lparr>marches_used = 0, total_explored = 0, explored_ruins = ?E\<rparr>" ?s3]
  obtain X where
    X: "flow_obs (trace (snd ?L)) = flow_obs (trace s) @ X"
       "walk ?B ?cat 0 ?E X = walk_outcome (fst ?L)"
    unfolding flow_loops_def s3 by auto
  note res = flow_loops_result [OF nz]
  show ?thesis
  proof (cases "fst ?L")
    case (Inl e)
    with X res show ?thesis by (intro exI [of _ X]) (simp add: walk_outcome_def)
  next
    case (Inr v')
    with X(2) have w: "walk ?B ?cat 0 ?E X = Walked (marches_used v') (explored_ruins v')"
      by (simp add: walk_outcome_def)
    from walk_walked [OF w] w have "walk ?B ?cat 0 ?E X = Walked (int (n_success X)) (?E @ keys (probed X))"
      by simp
    with X(1) res Inr show ?thesis by (intro exI [of _ X]) simp
  qed
qed

lemma run_walk:
  "walk (flow_budget env cfg (initial w)) (catalog_coordinates load_ruin_coordinates) 0
        (flow_explored env cfg (initial w)) (run_obs env cfg w) =
     (case run_result env cfg w of
        Inl e \<Rightarrow> Aborted
      | Inr b \<Rightarrow> Walked (int (n_success (run_obs env cfg w)))
                  (flow_explored env cfg (initial w) @ keys (probed (run_obs env cfg w))))"
proof -
  from explore_ruins_flow_walk [of env cfg "initial w"] obtain X where
    X: "run_obs env cfg w = X"
    and w: "walk (flow_budget env cfg (initial w)) (catalog_coordinates load_ruin_coordinates) 0
              (flow_explored env cfg (initial w)) X =
            (case run_result env cfg w of
               Inl e \<Rightarrow> Aborted
             | Inr b \<Rightarrow> Walked (int (n_success X))
                         (flow_explored env cfg (initial w) @ keys (probed X)))"
    by (auto simp: run_obs_def run_result_def)
  show ?thesis unfolding X by (rule w)
qed

section \<open>Sample runs\<close>

lemma reads_only_simps [simp]:
  "reads_only (Log m)" "reads_only (Detect p a t r)"
  by (simp_all add: reads_only_def)

lemma count_reads_only:
  "list_all reads_only (trace (snd (count_available_marches env cfg s))) = list_all reads_only (trace s)"
  by (simp add: count_available_marches_def Let_def split_beta trace_detect split: option.split)

lemma probed_keys: "(x, y) \<in> set cs \<Longrightarrow> coord_key x y \<in> set (keys cs)"
  by (auto simp: keys_def)

lemma demo_run:
  "run_obs demo_env demo_config 0 =
     [Probe 15 149, Saved [''15,149''], Probe 33 175, Success, Saved [''15,149'', ''33,175'']]"
  by (simp add: run_obs_def eval_defs Let_def load_ruin_coordinates_def level_1_areas_def)

lemma demo_inputs:
  "flow_budget demo_env demo_config (initial 0) = 1"
  "flow_explored demo_env demo_config (initial 0) = []"
  "run_result demo_env demo_config 0 = Inr True"
  by (simp_all add: run_result_def eval_defs Let_def load_ruin_coordinates_def level_1_areas_def)

lemma seen_run:
  "run_obs seen_env demo_config 0 =
     [Probe 33 175, Saved [''15,149'', ''33,175''], Probe 34 110, Success,
      Saved [''15,149'', ''33,175'', ''34,110'']]"
  "flow_explored seen_env demo_config (initial 0) = [''15,149'']"
  by (simp_all add: run_obs_def seen_env_def eval_defs Let_def load_ruin_coordinates_def level_1_areas_def)

lemma busy_inputs:
  "flow_budget demo_env busy_config (initial 0) = 0"
  by (simp add: eval_defs Let_def)

lemma track_within:
  "track B (Some (u, E, ph)) X = Some (u', E', ph') \<Longrightarrow> u \<le> B \<Longrightarrow>
     (\<And>x y. ph = Probing x y False \<Longrightarrow> u < B) \<Longrightarrow>
     u' \<le> B \<and> (\<forall>x y. ph' = Probing x y False \<longrightarrow> u' < B)"
proof (induction X arbitrary: u E ph)
  case Nil
  then show ?case by auto
next
  case (Cons ob X)
  then obtain u1 E1 ph1 where st: "step B (Some (u, E, ph)) ob = Some (u1, E1, ph1)"
    by (cases "step B (Some (u, E, ph)) ob") auto
  with Cons.prems have run: "track B (Some (u1, E1, ph1)) X = Some (u', E', ph')" by simp
  from st Cons.prems(2,3) have "u1 \<le> B" and "\<And>x y. ph1 = Probing x y False \<Longrightarrow> u1 < B"
    by (cases ob; cases ph; auto simp: step_def split: if_splits)+
  from Cons.IH [OF run this] show ?case .
qed

lemma track_success_le:
  "track B (Some (u, E, ph)) X = Some (u', E', ph') \<Longrightarrow>
     n_success X \<le> length (probed X) + (case ph of Idle \<Rightarrow> 0 | Probing x y b \<Rightarrow> if b then 0 else 1)"
proof (induction X arbitrary: u E ph)
  case Nil
  then show ?case by simp
next
  case (Cons ob X)
  then obtain u1 E1 ph1 where st: "step B (Some (u, E, ph)) ob = Some (u1, E1, ph1)"
    by (cases "step B (Some (u, E, ph)) ob") auto
  with Cons.prems have run: "track B (Some (u1, E1, ph1)) X = Some (u', E', ph')" by simp
  from Cons.IH [OF run] st show ?case
    by (cases ob; cases ph) (auto simp: step_def split: if_splits)
qed

lemma flow_budget_range: "0 \<le> flow_budget env cfg s \<and> flow_budget env cfg s \<le> 2"
  by (simp add: flow_budget_def count_available_marches_def Let_def split: option.split prod.split)

lemma catalog_length: "length (catalog_coordinates load_ruin_coordinates) = 690"
  by (simp add: catalog_coordinates_def areas_coordinates_def load_ruin_coordinates_def
      level_1_areas_def level_2_areas_def level_3_areas_def)

lemma catalog_first_two:
  "(15, 149) \<in> set (catalog_coordinates load_ruin_coordinates)"
  "(33, 175) \<in> set (catalog_coordinates load_ruin_coordinates)"
  by (simp_all add: catalog_coordinates_def areas_coordinates_def load_ruin_coordinates_def
      level_1_areas_def)

lemma two_keys_differ: "coord_key 15 149 \<noteq> coord_key 33 175"
  by (simp add: coord_key_def str_def digit_def)

lemma levels_used_count:
  assumes "explore_levels env cfg B levels v s = (Inr v', s')"
  shows "\<exists>X. flow_obs (trace s') = flow_obs (trace s) @ X \<and>
             marches_used v' = marches_used v + int (n_success X)"
proof -
  from explore_levels_run [of env cfg B levels v s] assms obtain X where
    X: "flow_obs (trace s') = flow_obs (trace s) @ X"
       "loop_post B (catalog_coordinates levels) v (Inr v') X" by auto
  from X(2) have "track B (Some (marches_used v, explored_ruins v, Idle)) X =
      Some (marches_used v', explored_ruins v', Idle)" by (simp add: loop_post_def)
  from track_used [OF this] X(1) show ?thesis by blast
qed

lemma save_explored_ruins_exact:
  "world (save_explored_ruins env explored s) = snd (json_dump env explored (world s)) \<and>
   trace (save_explored_ruins env explored s) =
     trace s @ JsonDump explored (fst (json_dump env explored (world s))) #
       (case fst (json_dump env explored (world s)) of
          None \<Rightarrow> [] | Some e \<Rightarrow> [Log (ErrorSaving e)])"
  by (simp add: save_explored_ruins_def split_beta emit_def log_msg_def split: option.split)

lemma run_save_follows:
  assumes "run_obs env cfg w = pre @ Probe x y # post"
  shows "(\<exists>post'. post = Saved (flow_explored env cfg (initial w) @ keys (probed pre) @ [coord_key x y]) # post')
       \<or> (\<exists>post'. post = Success # Saved (flow_explored env cfg (initial w) @ keys (probed pre) @ [coord_key x y]) # post')
       \<or> (post = [] \<and> (\<exists>e. run_result env cfg w = Inl e))"
proof -
  let ?B = "flow_budget env cfg (initial w)"
  let ?E = "flow_explored env cfg (initial w)"
  note post = run_post [of env cfg w]
  show ?thesis
  proof (cases "run_result env cfg w")
    case (Inl e)
    with post obtain u E x' y' where
      "track ?B (Some (0, ?E, Idle)) (run_obs env cfg w) = Some (u, E, Probing x' y' False)"
      by (auto simp: flow_post_def)
    with assms have "track ?B (Some (0, ?E, Idle)) (pre @ Probe x y # post) =
        Some (u, E, Probing x' y' False)" by simp
    from track_save_follows [OF this] Inl show ?thesis by auto
  next
    case (Inr b)
    with post obtain u E where
      "track ?B (Some (0, ?E, Idle)) (run_obs env cfg w) = Some (u, E, Idle)"
      by (auto simp: flow_post_def)
    with assms have "track ?B (Some (0, ?E, Idle)) (pre @ Probe x y # post) = Some (u, E, Idle)"
      by simp
    from track_save_follows [OF this] show ?thesis by auto
  qed
qed

lemma run_probes_distinct: "distinct (keys (probed (run_obs env cfg w)))"
proof -
  from run_tracked [of env cfg w] obtain u E ph where
    "track (flow_budget env cfg (initial w)) (Some (0, flow_explored env cfg (initial w), Idle))
       (run_obs env cfg w) = Some (u, E, ph)" by (metis prod_cases3)
  from track_fresh [OF this] show ?thesis by simp
qed

lemma explore_coordinates_body:
  assumes "search_ruin_at_coordinate env cfg x y s = (Inr found, s1)"
    and "marches_used v < B" and "coord_key x y \<notin> set (explored_ruins v)"
  shows "explore_coordinates env cfg B ((x, y) # cs) v s =
     explore_coordinates env cfg B cs
       ((if found then v\<lparr>marches_used := marches_used v + 1,
                          total_explored := total_explored v + 1\<rparr> else v)
          \<lparr>explored_ruins := explored_ruins v @ [coord_key x y]\<rparr>)
       (sleep env 1 (save_explored_ruins env (explored_ruins v @ [coord_key x y])
          (if found then log_msg (MarchStarted (marches_used v + 1) B x y) s1 else s1)))"
proof -
  from assms(2) have "\<not> B \<le> marches_used v" by simp
  from explore_coordinates_unfold [OF this assms(3), of env cfg cs s] assms(1)
  show ?thesis by simp
qed

lemma detections_simps [simp]:
  "detections [] = []"
  "detections (tr @ tr') = detections tr @ detections tr'"
  "detections (Detect p a t r # tr) = (p, a, t, r) # detections tr"
  "detections (Log m # tr) = detections tr"
  "detections (Print m # tr) = detections tr"
  "detections (Shell c e # tr) = detections tr"
  by (simp_all add: detections_def)

lemma click_coordinate_trace:
  "device env \<Longrightarrow>
   \<exists>cmd r m. trace (snd (click_coordinate env x y s)) = trace s @ [Shell cmd r, Print m] \<and>
     fst (click_coordinate env x y s) = (r = None)"
  by (simp add: click_coordinate_def split_beta trace_shell split: option.split)

lemma click_element_loop_trace:
  assumes dev: "device env"
  shows "\<exists>evs. trace (snd (click_element_loop env n ec m thr as s)) = trace s @ evs \<and>
     click_post n ec m thr (length as) (fst (click_element_loop env n ec m thr as s)) evs"
proof (induction as arbitrary: s)
  case Nil
  show ?case by (rule exI [of _ "[Log (NotFoundAfter n m)]"]) (simp add: click_post_def)
next
  case (Cons a as)
  let ?d = "detect env (image_path ec) (search_area ec) (get_threshold ec thr) s"
  let ?D = "Detect (image_path ec) (search_area ec) (get_threshold ec thr) (fst ?d)"
  have td: "trace (snd ?d) = trace s @ [?D]" by (simp add: trace_detect)
  show ?case
  proof (cases "fst ?d")
    case None
    let ?s1 = "if a < m - 1 then log_msg (NotFoundAttempt n (a + 1) m) (snd ?d) else snd ?d"
    let ?pre = "?D # (if a < m - 1 then [Log (NotFoundAttempt n (a + 1) m)] else [])"
    have res: "click_element_loop env n ec m thr (a # as) s = click_element_loop env n ec m thr as ?s1"
      using None by (simp add: split_beta)
    have t1: "trace ?s1 = trace s @ ?pre" using td by simp
    from Cons.IH [of ?s1] obtain evs where
      evs: "trace (snd (click_element_loop env n ec m thr as ?s1)) = trace ?s1 @ evs"
           "click_post n ec m thr (length as) (fst (click_element_loop env n ec m thr as ?s1)) evs"
      by blast
    from evs(2) have ne: "evs \<noteq> [] \<or> fst (click_element_loop env n ec m thr as ?s1)"
      by (auto simp: click_post_def)
    have "click_post n ec m thr (length (a # as)) (fst (click_element_loop env n ec m thr as ?s1)) (?pre @ evs)"
      using evs(2) None unfolding click_post_def
      by (cases "evs = []") (auto simp: split: if_splits)
    with evs(1) t1 show ?thesis unfolding res by (intro exI [of _ "?pre @ evs"]) simp
  next
    case (Some c)
    obtain cx cy where c: "c = (cx, cy)" by (cases c)
    let ?adj = "n = ''coordX'' \<or> n = ''coordY''"
    let ?ax = "if ?adj then cx + 45 else cx"
    let ?s1 = "if ?adj then log_msg (AdjustingClickX n cx (cx + 45)) (snd ?d) else snd ?d"
    let ?pre = "?D # (if ?adj then [Log (AdjustingClickX n cx (cx + 45))] else [])"
    let ?k = "click_coordinate env ?ax cy ?s1"
    let ?fin = "Log (if fst ?k then ClickedElement n ?ax cy else FailedToClick n)"
    have t1: "trace ?s1 = trace s @ ?pre" using td by simp
    from click_coordinate_trace [OF dev, of ?ax cy ?s1] obtain cmd r pm where
      k: "trace (snd ?k) = trace ?s1 @ [Shell cmd r, Print pm]" "fst ?k = (r = None)" by blast
    have res: "fst (click_element_loop env n ec m thr (a # as) s) = fst ?k"
      and tr: "trace (snd (click_element_loop env n ec m thr (a # as) s)) = trace (snd ?k) @ [?fin]"
      using Some c by (simp_all add: split_beta split: bool.split)
    have "click_post n ec m thr (length (a # as)) (fst ?k) (?pre @ [Shell cmd r, Print pm, ?fin])"
      using k(2) Some by (auto simp: click_post_def)
    with tr k(1) t1 show ?thesis unfolding res
      by (intro exI [of _ "?pre @ [Shell cmd r, Print pm, ?fin]"]) simp
  qed
qed

section \<open>Keys tell coordinates apart\<close>

lemma digit_inj: "n < 10 \<Longrightarrow> m < 10 \<Longrightarrow> digit n = digit m \<Longrightarrow> n = m"
proof -
  assume a: "n < 10" "m < 10" "digit n = digit m"
  have "distinct ''0123456789''" by simp
  with a show ?thesis by (simp add: digit_def nth_eq_iff_index_eq)
qed

lemma digit_in: "n < 10 \<Longrightarrow> digit n \<in> set ''0123456789''"
  unfolding digit_def by (rule nth_mem) simp

lemma str_nat_chars: "set (str_nat n) \<subseteq> set ''0123456789''"
proof (induction n rule: str_nat.induct)
  case (1 n)
  show ?case
  proof (cases "n < 10")
    case True
    with digit_in [of n] show ?thesis by (subst str_nat.simps) simp
  next
    case False
    with "1.IH" digit_in [of "n mod 10"] show ?thesis by (subst str_nat.simps) simp
  qed
qed

lemma str_nat_nonempty: "str_nat n \<noteq> []"
  by (subst str_nat.simps) simp

lemma str_nat_inj: "str_nat n = str_nat m \<Longrightarrow> n = m"
proof (induction n arbitrary: m rule: str_nat.induct)
  case (1 n)
  show ?case
  proof (cases "n < 10")
    case n: True
    show ?thesis
    proof (cases "m < 10")
      case True
      with n "1.prems" show ?thesis
        by (subst (asm) str_nat.simps, subst (asm) (2) str_nat.simps) (simp add: digit_inj)
    next
      case False
      with n "1.prems" str_nat_nonempty [of "m div 10"] show ?thesis
        by (subst (asm) str_nat.simps, subst (asm) (2) str_nat.simps) simp
    qed
  next
    case n: False
    show ?thesis
    proof (cases "m < 10")
      case True
      with n "1.prems" str_nat_nonempty [of "n div 10"] show ?thesis
        by (subst (asm) str_nat.simps, subst (asm) (2) str_nat.simps) simp
    next
      case False
      from "1.prems" have "str_nat (n div 10) @ [digit (n mod 10)] = str_nat (m div 10) @ [digit (m mod 10)]"
        using n False str_nat.simps [of n] str_nat.simps [of m] by simp
      then have a: "str_nat (n div 10) = str_nat (m div 10)" and b: "digit (n mod 10) = digit (m mod 10)"
        by simp_all
      from "1.IH" [OF n a] have d: "n div 10 = m div 10" .
      from digit_inj [OF _ _ b] have e: "n mod 10 = m mod 10" by simp
      from d e show ?thesis by (metis div_mult_mod_eq)
    qed
  qed
qed

lemma str_inj: "str i = str j \<Longrightarrow> i = j"
proof -
  assume a: "str i = str j"
  have nd: "CHR ''-'' \<notin> set (str_nat k)" for k using str_nat_chars [of k] by auto
  have hd: "hd (str_nat k) \<noteq> CHR ''-''" for k
    using nd [of k] str_nat_nonempty [of k] by (cases "str_nat k") auto
  show ?thesis
  proof (cases "i < 0")
    case i: True
    show ?thesis
    proof (cases "j < 0")
      case True
      with i a have "str_nat (nat (- i)) = str_nat (nat (- j))" by (simp add: str_def)
      from str_nat_inj [OF this] i True show ?thesis by simp
    next
      case False
      with i a have "CHR ''-'' # str_nat (nat (- i)) = str_nat (nat j)" by (simp add: str_def)
      with hd [of "nat j"] show ?thesis by (metis list.sel(1))
    qed
  next
    case i: False
    show ?thesis
    proof (cases "j < 0")
      case True
      with i a have "str_nat (nat i) = CHR ''-'' # str_nat (nat (- j))" by (simp add: str_def)
      with hd [of "nat i"] show ?thesis by (metis list.sel(1))
    next
      case False
      with i a have "str_nat (nat i) = str_nat (nat j)" by (simp add: str_def)
      from str_nat_inj [OF this] i False show ?thesis by simp
    qed
  qed
qed

lemma str_no_comma: "CHR '','' \<notin> set (str i)"
  using str_nat_chars [of "nat i"] str_nat_chars [of "nat (- i)"] by (auto simp: str_def)

lemma split_at_separator:
  "c \<notin> set xs \<Longrightarrow> c \<notin> set xs' \<Longrightarrow> xs @ c # ys = xs' @ c # ys' \<Longrightarrow> xs = xs' \<and> ys = ys'"
proof (induction xs arbitrary: xs')
  case Nil
  then show ?case by (cases xs') auto
next
  case (Cons a xs)
  then show ?case by (cases xs') auto
qed

lemma coord_key_inj: "coord_key x y = coord_key x' y' \<Longrightarrow> x = x' \<and> y = y'"
proof -
  assume "coord_key x y = coord_key x' y'"
  then have "str x @ CHR '','' # str y = str x' @ CHR '','' # str y'" by (simp add: coord_key_def)
  from split_at_separator [OF str_no_comma str_no_comma this] show ?thesis
    by (auto dest: str_inj)
qed

lemma keys_probed_iff: "coord_key x y \<in> set (keys cs) \<longleftrightarrow> (x, y) \<in> set cs"
  by (auto simp: keys_def dest: coord_key_inj)

section \<open>Coverage, writes and further sample runs\<close>

lemma run_coverage:
  assumes "run_result env cfg w = Inr b"
  shows "flow_budget env cfg (initial w) \<le> int (n_success (run_obs env cfg w)) \<or>
         (\<forall>(x, y) \<in> set (catalog_coordinates load_ruin_coordinates).
            coord_key x y \<in> set (flow_explored env cfg (initial w)) \<or>
            (x, y) \<in> set (probed (run_obs env cfg w)))"
proof -
  let ?B = "flow_budget env cfg (initial w)"
  let ?X = "run_obs env cfg w"
  let ?cat = "catalog_coordinates load_ruin_coordinates"
  from run_post [of env cfg w] assms obtain u E where
    tr: "track ?B (Some (0, flow_explored env cfg (initial w), Idle)) ?X = Some (u, E, Idle)"
    and fin: "?B \<le> u \<or> set (keys ?cat) \<subseteq> set E"
    by (auto simp: flow_post_def)
  from track_used [OF tr] have u: "u = int (n_success ?X)" by simp
  from track_explored [OF tr] have E: "E = flow_explored env cfg (initial w) @ keys (probed ?X)"
    by simp
  show ?thesis
  proof (cases "?B \<le> u")
    case True
    with u show ?thesis by simp
  next
    case False
    with fin have "set (keys ?cat) \<subseteq> set E" by simp
    then have "\<forall>(x, y) \<in> set ?cat. coord_key x y \<in> set E" by (auto dest: probed_keys)
    then show ?thesis unfolding E by (auto simp: keys_probed_iff)
  qed
qed

lemma dumps_simps [simp]:
  "dumps [] = []"
  "dumps (tr @ tr') = dumps tr @ dumps tr'"
  "dumps (JsonDump explored r # tr) = (explored, r) # dumps tr"
  "dumps (Log m # tr) = dumps tr"
  "dumps (Print m # tr) = dumps tr"
  "dumps (Shell c e # tr) = dumps tr"
  "dumps (Detect p a t d # tr) = dumps tr"
  "dumps (Sleep t # tr) = dumps tr"
  "dumps (PathExists b # tr) = dumps tr"
  "dumps (JsonLoad l # tr) = dumps tr"
  by (simp_all add: dumps_def)

lemma saved_dumps: "saved (flow_obs tr) = map fst (dumps tr)"
proof (induction tr)
  case Nil
  show ?case by simp
next
  case (Cons ev tr)
  have "flow_obs (ev # tr) = obs_of ev @ flow_obs tr" by (simp add: flow_obs_def)
  with Cons show ?case by (cases ev) (auto simp: saved_append obs_of_def split: msg.splits)
qed

lemma unplugged_run:
  "run_obs unplugged_env demo_config 0 = [Probe 15 149]"
  "run_result unplugged_env demo_config 0 = Inl (Raised ''device offline'')"
  "flow_budget unplugged_env demo_config (initial 0) = 1"
  "flow_explored unplugged_env demo_config (initial 0) = []"
  "dumps (trace (snd (explore_ruins_flow unplugged_env demo_config (initial 0)))) = []"
  by (simp_all add: run_obs_def run_result_def unplugged_env_def eval_defs Let_def
      load_ruin_coordinates_def level_1_areas_def)

lemma read_only_run:
  "run_obs read_only_env demo_config 0 =
     [Probe 15 149, Saved [''15,149''], Probe 33 175, Success, Saved [''15,149'', ''33,175'']]"
  "run_result read_only_env demo_config 0 = Inr True"
  "flow_budget read_only_env demo_config (initial 0) = 1"
  "flow_explored read_only_env demo_config (initial 0) = []"
  "dumps (trace (snd (explore_ruins_flow read_only_env demo_config (initial 0)))) =
     [([''15,149''], Some (Raised ''read-only file system'')),
      ([''15,149'', ''33,175''], Some (Raised ''read-only file system''))]"
  by (simp_all add: run_obs_def run_result_def read_only_env_def eval_defs Let_def
      load_ruin_coordinates_def level_1_areas_def)

lemma resumed_run:
  "run_obs resumed_env demo_config 0 =
     [Probe 34 110, Saved [''15,149'', ''33,175'', ''34,110''], Probe 73 58, Success,
      Saved [''15,149'', ''33,175'', ''34,110'', ''73,58'']]"
  "flow_explored resumed_env demo_config (initial 0) = [''15,149'', ''33,175'']"
  by (simp_all add: run_obs_def resumed_env_def eval_defs Let_def
      load_ruin_coordinates_def level_1_areas_def)

lemma run_saved_dumps:
  "saved (run_obs env cfg w) = map fst (dumps (trace (snd (explore_ruins_flow env cfg (initial w)))))"
  by (simp add: run_obs_def saved_dumps)

lemma run_returned:
  assumes "run_result env cfg w = Inr b"
  shows "explored_after (flow_explored env cfg (initial w)) (run_obs env cfg w) =
           flow_explored env cfg (initial w) @ keys (probed (run_obs env cfg w))"
proof -
  from run_post [of env cfg w] assms obtain u E where
    tr: "track (flow_budget env cfg (initial w)) (Some (0, flow_explored env cfg (initial w), Idle))
           (run_obs env cfg w) = Some (u, E, Idle)"
    by (auto simp: flow_post_def)
  from track_explored_after [OF tr] track_explored [OF tr] show ?thesis by simp
qed

lemma run_raised:
  assumes "run_result env cfg w = Inl e"
  shows "\<exists>x y. explored_after (flow_explored env cfg (initial w)) (run_obs env cfg w) @ [coord_key x y] =
           flow_explored env cfg (initial w) @ keys (probed (run_obs env cfg w))"
proof -
  from run_post [of env cfg w] assms obtain u E x y where
    tr: "track (flow_budget env cfg (initial w)) (Some (0, flow_explored env cfg (initial w), Idle))
           (run_obs env cfg w) = Some (u, E, Probing x y False)"
    by (auto simp: flow_post_def)
  from track_explored_after [OF tr] track_explored [OF tr] show ?thesis by auto
qed

lemma run_loops_explored:
  assumes "run_result env cfg w = Inr b" and "flow_budget env cfg (initial w) \<noteq> 0"
  shows "\<exists>v' s'. flow_loops env cfg (initial w) = (Inr v', s') \<and>
           explored_ruins v' =
             explored_after (flow_explored env cfg (initial w)) (run_obs env cfg w)"
proof -
  let ?B = "flow_budget env cfg (initial w)"
  let ?E = "flow_explored env cfg (initial w)"
  let ?L = "flow_loops env cfg (initial w)"
  let ?s3 = "log_msg (PreviouslyExplored (length ?E))
          (snd (load_explored_ruins env
                  (log_msg (AvailableMarches ?B)
                     (snd (count_available_marches env cfg (log_msg StartingFlow (initial w)))))))"
  have s3: "flow_obs (trace ?s3) = []" by simp
  note res = flow_loops_result [OF assms(2)]
  from res(1) assms(1) obtain v' where v': "fst ?L = Inr v'"
    by (cases "fst ?L") (auto simp: run_result_def)
  from explore_levels_run [of env cfg ?B load_ruin_coordinates
      "\<lparr>marches_used = 0, total_explored = 0, explored_ruins = ?E\<rparr>" ?s3]
  obtain X where
    X: "flow_obs (trace (snd ?L)) = X"
       "loop_post ?B (catalog_coordinates load_ruin_coordinates)
          \<lparr>marches_used = 0, total_explored = 0, explored_ruins = ?E\<rparr> (fst ?L) X"
    unfolding flow_loops_def s3 by auto
  from res(2) X(1) have run: "run_obs env cfg w = X" by (simp add: run_obs_def)
  from X(2) v' have "track ?B (Some (0, ?E, Idle)) X =
      Some (marches_used v', explored_ruins v', Idle)" by (simp add: loop_post_def)
  from track_explored_after [OF this] have "explored_ruins v' = explored_after ?E X" .
  with v' run show ?thesis by (intro exI [of _ v'] exI [of _ "snd ?L"]) (simp add: prod_eq_iff)
qed

lemma loaded_key_not_probed:
  assumes "coord_key x y \<in> set (flow_explored env cfg (initial w))"
  shows "(x, y) \<notin> set (probed (run_obs env cfg w))"
proof
  assume p: "(x, y) \<in> set (probed (run_obs env cfg w))"
  from run_tracked [of env cfg w] obtain u E ph where
    "track (flow_budget env cfg (initial w)) (Some (0, flow_explored env cfg (initial w), Idle))
       (run_obs env cfg w) = Some (u, E, ph)" by (metis prod_cases3)
  from track_fresh [OF this] probed_keys [OF p] assms show False by auto
qed

lemma fresh_cong: "p = p' \<Longrightarrow> fresh p qs = fresh p' qs"
  by simp

lemma fresh_iff: "fresh p qs \<longleftrightarrow> p \<notin> set qs"
  by (induction qs) auto

lemma all_fresh_iff: "all_fresh ps \<longleftrightarrow> distinct ps"
  by (induction ps) (auto simp: fresh_iff)

lemma apart_iff: "apart ps qs \<longleftrightarrow> set ps \<inter> set qs = {}"
  by (induction ps) (auto simp: fresh_iff)

lemmas check_simps =
  areas_coordinates_def concat.simps list.map snd_conv append.simps fresh.simps
  all_fresh.simps apart.simps prod.inject numeral_eq_iff num.inject num.distinct simp_thms

lemma level_1_fresh: "all_fresh (areas_coordinates level_1_areas)"
  unfolding level_1_areas_def by (simp only: check_simps cong: fresh_cong)

lemma level_2_fresh: "all_fresh (areas_coordinates level_2_areas)"
  unfolding level_2_areas_def by (simp only: check_simps cong: fresh_cong)

lemma level_3_fresh: "all_fresh (areas_coordinates level_3_areas)"
  unfolding level_3_areas_def by (simp only: check_simps cong: fresh_cong)

lemma level_1_2_apart: "apart (areas_coordinates level_1_areas) (areas_coordinates level_2_areas)"
  unfolding level_1_areas_def level_2_areas_def by (simp only: check_simps cong: fresh_cong)

lemma level_1_3_apart: "apart (areas_coordinates level_1_areas) (areas_coordinates level_3_areas)"
  unfolding level_1_areas_def level_3_areas_def by (simp only: check_simps cong: fresh_cong)

lemma level_2_3_apart: "apart (areas_coordinates level_2_areas) (areas_coordinates level_3_areas)"
  unfolding level_2_areas_def level_3_areas_def by (simp only: check_simps cong: fresh_cong)

lemma catalog_coordinates_levels:
  "catalog_coordinates load_ruin_coordinates =
     areas_coordinates level_1_areas @ areas_coordinates level_2_areas
       @ areas_coordinates level_3_areas"
  by (simp add: catalog_coordinates_def load_ruin_coordinates_def)

section \<open>The catalog has no duplicate\<close>

text \<open>
  C7. In the catalog returned by \<open>_load_ruin_coordinates\<close> no coordinate pair occurs twice:
  the list of all its coordinates, over all areas of all levels, is distinct, so a pair
  appears in at most one area of one level (and only once there).
\<close>

theorem catalog_no_duplicates: "distinct (catalog_coordinates load_ruin_coordinates)"
  using level_1_fresh level_2_fresh level_3_fresh level_1_2_apart level_1_3_apart level_2_3_apart
  unfolding catalog_coordinates_levels all_fresh_iff apart_iff
  by auto

section \<open>The range of the march budget\<close>

text \<open>
  C8. Whatever the detector answers and whatever the configuration holds (with or without
  the entries \<open>MarchNb1\<close> and \<open>MarchNb2\<close>, with or without a device), the number returned by
  \<open>count_available_marches\<close> is 0, 1 or 2.
\<close>

theorem count_available_marches_range:
  "0 \<le> fst (count_available_marches env cfg s) \<and> fst (count_available_marches env cfg s) \<le> 2"
  by (simp add: count_available_marches_def Let_def split: option.split prod.split)

section \<open>Explored coordinates are skipped\<close>

text \<open>
  C4. A coordinate whose key \<open>"x,y"\<close> is in the explored list loaded at the start of the flow
  is never probed during the run: running the flow again with the same explored list never
  attempts it again.
\<close>

theorem explored_coordinates_never_probed:
  "coord_key x y \<in> set (flow_explored env cfg (initial w)) \<Longrightarrow>
     (x, y) \<notin> set (probed (run_obs env cfg w))"
proof
  assume k: "coord_key x y \<in> set (flow_explored env cfg (initial w))"
    and p: "(x, y) \<in> set (probed (run_obs env cfg w))"
  from run_tracked [of env cfg w] obtain u E ph where
    "track (flow_budget env cfg (initial w)) (Some (0, flow_explored env cfg (initial w), Idle))
       (run_obs env cfg w) = Some (u, E, ph)" by (metis prod_cases3)
  from track_fresh [OF this] probed_keys [OF p] k show False by auto
qed

theorem explored_coordinates_never_probed_witness:
  "coord_key 15 149 \<in> set (flow_explored seen_env demo_config (initial 0)) \<and>
   (15, 149) \<notin> set (probed (run_obs seen_env demo_config 0)) \<and>
   probed (run_obs seen_env demo_config 0) = [(33, 175), (34, 110)]"
proof -
  have k: "coord_key 15 149 \<in> set (flow_explored seen_env demo_config (initial 0))"
    by (simp add: seen_run coord_key_def str_def digit_def)
  from explored_coordinates_never_probed [OF k] k show ?thesis
    by (simp add: seen_run)
qed

section \<open>A budget of zero\<close>

text \<open>
  C6. When the budget probe returns 0 the flow returns \<open>False\<close> at once: no coordinate is
  probed, no explored list is written, and the run consists only of log lines and of the
  detections of the budget probe, so that the explored list is neither loaded nor changed,
  in memory or on disk.
\<close>

theorem zero_budget_short_circuit:
  "flow_budget env cfg (initial w) = 0 \<Longrightarrow>
     run_result env cfg w = Inr False \<and> run_obs env cfg w = [] \<and>
     list_all reads_only (trace (snd (explore_ruins_flow env cfg (initial w))))"
  by (simp add: run_result_def run_obs_def explore_ruins_flow_def flow_budget_def split_beta
      count_reads_only initial_def)

theorem zero_budget_short_circuit_witness:
  "flow_budget demo_env busy_config (initial 0) = 0 \<and>
   run_result demo_env busy_config 0 = Inr False \<and> run_obs demo_env busy_config 0 = [] \<and>
   list_all reads_only (trace (snd (explore_ruins_flow demo_env busy_config (initial 0))))"
  using zero_budget_short_circuit [OF busy_inputs] busy_inputs by simp

section \<open>The flow stays within the march budget\<close>

text \<open>
  C1. Whatever budget the budget probe returns and whatever explored list is loaded, a run
  of \<open>explore_ruins_flow\<close> probes coordinates in the order of the catalog (level, area,
  coordinate) and only coordinates whose key is not in the loaded list; every probe is made
  while fewer probes have succeeded than the budget allows, so the number of successful
  probes never exceeds the budget; the flow returns \<open>True\<close> exactly when a probe succeeded;
  and the used-count \<open>marches_used\<close> of the loops grows by exactly the number of successful
  probes. The observations of the run are exactly those of the walk over the whole catalog
  from used-count 0 and the loaded list: no coordinate with a new key is passed over, every
  probe that returns is followed by the write, and nothing is observed once the used-count
  has reached the budget; the walk is cut short only by a probe that raises. So a run that
  returns has used up the budget, or every coordinate of the catalog has its key in the
  loaded list or was probed.
\<close>

theorem explore_ruins_flow_within_budget:
  "subseq (probed (run_obs env cfg w)) (catalog_coordinates load_ruin_coordinates) \<and>
   (\<forall>(x, y) \<in> set (probed (run_obs env cfg w)).
      coord_key x y \<notin> set (flow_explored env cfg (initial w))) \<and>
   (\<forall>pre x y post. run_obs env cfg w = pre @ Probe x y # post \<longrightarrow>
      int (n_success pre) < flow_budget env cfg (initial w)) \<and>
   int (n_success (run_obs env cfg w)) \<le> flow_budget env cfg (initial w) \<and>
   (\<forall>b. run_result env cfg w = Inr b \<longrightarrow> b = (0 < n_success (run_obs env cfg w))) \<and>
   (\<forall>B levels v s v' s'. explore_levels env cfg B levels v s = (Inr v', s') \<longrightarrow>
      (\<exists>X. flow_obs (trace s') = flow_obs (trace s) @ X \<and>
           marches_used v' = marches_used v + int (n_success X))) \<and>
   walk (flow_budget env cfg (initial w)) (catalog_coordinates load_ruin_coordinates) 0
        (flow_explored env cfg (initial w)) (run_obs env cfg w) =
     (case run_result env cfg w of
        Inl e \<Rightarrow> Aborted
      | Inr b \<Rightarrow> Walked (int (n_success (run_obs env cfg w)))
                  (flow_explored env cfg (initial w) @ keys (probed (run_obs env cfg w)))) \<and>
   (\<forall>b. run_result env cfg w = Inr b \<longrightarrow>
      flow_budget env cfg (initial w) \<le> int (n_success (run_obs env cfg w)) \<or>
      (\<forall>(x, y) \<in> set (catalog_coordinates load_ruin_coordinates).
         coord_key x y \<in> set (flow_explored env cfg (initial w)) \<or>
         (x, y) \<in> set (probed (run_obs env cfg w))))"
proof -
  let ?B = "flow_budget env cfg (initial w)"
  let ?E = "flow_explored env cfg (initial w)"
  let ?X = "run_obs env cfg w"
  note post = run_post [of env cfg w]
  from run_tracked [of env cfg w] obtain u E ph where
    tr: "track ?B (Some (0, ?E, Idle)) ?X = Some (u, E, ph)" by (metis prod_cases3)
  have 1: "subseq (probed ?X) (catalog_coordinates load_ruin_coordinates)"
    using post by (simp add: flow_post_def)
  have 2: "\<forall>(x, y) \<in> set (probed ?X). coord_key x y \<notin> set ?E"
    using track_fresh [OF tr] by (auto dest: probed_keys)
  have 3: "\<forall>pre x y post. ?X = pre @ Probe x y # post \<longrightarrow> int (n_success pre) < ?B"
  proof (intro allI impI)
    fix pre x y post
    assume "?X = pre @ Probe x y # post"
    with tr have "track ?B (Some (0, ?E, Idle)) (pre @ Probe x y # post) = Some (u, E, ph)"
      by simp
    from track_budget [OF this] show "int (n_success pre) < ?B" by simp
  qed
  have 4: "int (n_success ?X) \<le> ?B"
    using track_within [OF tr] track_used [OF tr] flow_budget_range [of env cfg "initial w"]
    by auto
  have 5: "\<forall>b. run_result env cfg w = Inr b \<longrightarrow> b = (0 < n_success ?X)"
  proof (intro allI impI)
    fix b
    assume "run_result env cfg w = Inr b"
    with post tr have "b = (0 < u)" by (auto simp: flow_post_def)
    with track_used [OF tr] show "b = (0 < n_success ?X)" by simp
  qed
  have 6: "\<forall>B levels v s v' s'. explore_levels env cfg B levels v s = (Inr v', s') \<longrightarrow>
      (\<exists>X. flow_obs (trace s') = flow_obs (trace s) @ X \<and>
           marches_used v' = marches_used v + int (n_success X))"
    by (intro allI impI levels_used_count)
  have 8: "\<forall>b. run_result env cfg w = Inr b \<longrightarrow>
      ?B \<le> int (n_success ?X) \<or>
      (\<forall>(x, y) \<in> set (catalog_coordinates load_ruin_coordinates).
         coord_key x y \<in> set ?E \<or> (x, y) \<in> set (probed ?X))"
    by (intro allI impI run_coverage)
  from 1 2 3 4 5 6 run_walk [of env cfg w] 8 show ?thesis
    by (intro conjI)
qed

theorem explore_ruins_flow_within_budget_witness:
  "run_obs demo_env demo_config 0 =
     [Probe 15 149, Saved [''15,149'']] @ Probe 33 175 # [Success, Saved [''15,149'', ''33,175'']] \<and>
   int (n_success [Probe 15 149, Saved [''15,149'']]) < flow_budget demo_env demo_config (initial 0) \<and>
   int (n_success (run_obs demo_env demo_config 0)) \<le> flow_budget demo_env demo_config (initial 0) \<and>
   subseq [(15, 149), (33, 175)] (catalog_coordinates load_ruin_coordinates) \<and>
   run_result demo_env demo_config 0 = Inr True \<and>
   flow_budget demo_env demo_config (initial 0) \<le> int (n_success (run_obs demo_env demo_config 0)) \<and>
   walk 1 (catalog_coordinates load_ruin_coordinates) 0 []
     [Probe 15 149, Saved [''15,149''], Probe 33 175, Success, Saved [''15,149'', ''33,175'']] =
     Walked 1 [''15,149'', ''33,175'']"
proof -
  have run: "run_obs demo_env demo_config 0 =
     [Probe 15 149, Saved [''15,149'']] @ Probe 33 175 # [Success, Saved [''15,149'', ''33,175'']]"
    by (simp add: demo_run)
  have ks: "keys [(15, 149), (33, 175)] = [''15,149'', ''33,175'']"
    by (simp add: keys_def coord_key_def str_def digit_def)
  note inst = explore_ruins_flow_within_budget [of demo_env demo_config 0]
  from inst run have "int (n_success [Probe 15 149, Saved [''15,149'']]) <
      flow_budget demo_env demo_config (initial 0)" by blast
  moreover from inst have "int (n_success (run_obs demo_env demo_config 0)) \<le>
      flow_budget demo_env demo_config (initial 0)" by blast
  moreover from inst have "subseq (probed (run_obs demo_env demo_config 0))
      (catalog_coordinates load_ruin_coordinates)" by blast
  moreover from inst have "walk (flow_budget demo_env demo_config (initial 0))
        (catalog_coordinates load_ruin_coordinates) 0
        (flow_explored demo_env demo_config (initial 0)) (run_obs demo_env demo_config 0) =
     (case run_result demo_env demo_config 0 of
        Inl e \<Rightarrow> Aborted
      | Inr b \<Rightarrow> Walked (int (n_success (run_obs demo_env demo_config 0)))
                  (flow_explored demo_env demo_config (initial 0) @
                   keys (probed (run_obs demo_env demo_config 0))))" by blast
  ultimately show ?thesis using run ks by (simp add: demo_run demo_inputs)
qed

section \<open>The size of the explored list after a run\<close>

text \<open>
  C5. The budget is between 0 and 2. A run of the flow that starts from an empty explored
  list leaves an explored list with at most as many entries as probes were made, which is at
  most the number of coordinates of the catalog, 690. When the run returns, the list has
  exactly one entry per probe made and at least as many entries as the budget, and it is the
  list \<open>explored_ruins\<close> that the loops end with. When a probe raises, the run ends there and
  the list lacks the entry of that probe, so it can have fewer entries than the budget. The
  list is the one handed to the last write of the run, and \<open>save_explored_ruins\<close> hands it
  to the file write as it is.
\<close>

theorem explored_set_size_after_run:
  assumes "flow_explored env cfg (initial w) = []"
  shows "0 \<le> flow_budget env cfg (initial w) \<and> flow_budget env cfg (initial w) \<le> 2 \<and>
         length (explored_after [] (run_obs env cfg w)) \<le> length (probed (run_obs env cfg w)) \<and>
         length (explored_after [] (run_obs env cfg w))
           \<le> length (catalog_coordinates load_ruin_coordinates) \<and>
         length (catalog_coordinates load_ruin_coordinates) = 690 \<and>
         (\<forall>b. run_result env cfg w = Inr b \<longrightarrow>
            flow_budget env cfg (initial w) \<le> int (length (explored_after [] (run_obs env cfg w))) \<and>
            length (explored_after [] (run_obs env cfg w)) = length (probed (run_obs env cfg w)) \<and>
            (flow_budget env cfg (initial w) \<noteq> 0 \<longrightarrow>
               (\<exists>v' s'. flow_loops env cfg (initial w) = (Inr v', s') \<and>
                  explored_ruins v' = explored_after [] (run_obs env cfg w)))) \<and>
         (\<forall>e. run_result env cfg w = Inl e \<longrightarrow>
            length (explored_after [] (run_obs env cfg w)) + 1 =
              length (probed (run_obs env cfg w))) \<and>
         explored_after [] (run_obs env cfg w) =
           last ([] # map fst (dumps (trace (snd (explore_ruins_flow env cfg (initial w)))))) \<and>
         (\<forall>explored s.
            world (save_explored_ruins env explored s) = snd (json_dump env explored (world s)) \<and>
            trace (save_explored_ruins env explored s) =
              trace s @ JsonDump explored (fst (json_dump env explored (world s))) #
                (case fst (json_dump env explored (world s)) of
                   None \<Rightarrow> [] | Some e \<Rightarrow> [Log (ErrorSaving e)]))"
proof -
  let ?B = "flow_budget env cfg (initial w)"
  let ?X = "run_obs env cfg w"
  let ?E = "explored_after [] ?X"
  let ?cat = "catalog_coordinates load_ruin_coordinates"
  note rng = flow_budget_range [of env cfg "initial w"]
  from run_post [of env cfg w] have sub: "subseq (probed ?X) ?cat" by (simp add: flow_post_def)
  from list_emb_length [OF sub] have cat: "length (probed ?X) \<le> length ?cat" .
  have ret: "?B \<le> int (length ?E) \<and> length ?E = length (probed ?X) \<and>
      (?B \<noteq> 0 \<longrightarrow> (\<exists>v' s'. flow_loops env cfg (initial w) = (Inr v', s') \<and> explored_ruins v' = ?E))"
    if r: "run_result env cfg w = Inr b" for b
  proof -
    from run_post [of env cfg w] assms r obtain u E where
      tr: "track ?B (Some (0, [], Idle)) ?X = Some (u, E, Idle)"
      and fin: "?B \<le> u \<or> set (keys ?cat) \<subseteq> set E"
      by (auto simp: flow_post_def)
    from track_explored_after [OF tr] have E: "E = ?E" .
    from track_explored [OF tr] have "E = keys (probed ?X)" by simp
    then have len: "length E = length (probed ?X)" by (simp add: keys_def)
    have low: "?B \<le> int (length E)"
    proof (cases "?B \<le> u")
      case True
      from track_used [OF tr] track_success_le [OF tr] have "u \<le> int (length (probed ?X))"
        by simp
      with True len show ?thesis by simp
    next
      case False
      with fin have inc: "set (keys ?cat) \<subseteq> set E" by simp
      from catalog_first_two have "coord_key 15 149 \<in> set (keys ?cat)" "coord_key 33 175 \<in> set (keys ?cat)"
        by (auto dest: probed_keys)
      with inc have "{coord_key 15 149, coord_key 33 175} \<subseteq> set E" by auto
      then have "card {coord_key 15 149, coord_key 33 175} \<le> card (set E)"
        by (intro card_mono) auto
      with two_keys_differ have "2 \<le> card (set E)" by simp
      also have "\<dots> \<le> length E" by (rule card_length)
      finally show ?thesis using rng by simp
    qed
    from run_loops_explored [OF r] assms
    have "?B \<noteq> 0 \<longrightarrow> (\<exists>v' s'. flow_loops env cfg (initial w) = (Inr v', s') \<and> explored_ruins v' = ?E)"
      by simp
    with low len show ?thesis unfolding E by simp
  qed
  have rai: "length ?E + 1 = length (probed ?X)" if r: "run_result env cfg w = Inl e" for e
  proof -
    from run_raised [OF r] assms obtain x y where
      "?E @ [coord_key x y] = keys (probed ?X)" by auto
    then have "length (?E @ [coord_key x y]) = length (keys (probed ?X))" by simp
    then show ?thesis by (simp add: keys_def)
  qed
  have le: "length ?E \<le> length (probed ?X)"
  proof (cases "run_result env cfg w")
    case (Inl e)
    from rai [OF this] show ?thesis by simp
  next
    case (Inr b)
    from ret [OF this] show ?thesis by simp
  qed
  have last: "?E = last ([] # map fst (dumps (trace (snd (explore_ruins_flow env cfg (initial w))))))"
    by (simp only: explored_after_def run_saved_dumps)
  from rng le cat catalog_length ret rai last save_explored_ruins_exact [of env] show ?thesis
    by (intro conjI allI impI) simp_all
qed

theorem explored_set_size_after_run_witness:
  "flow_explored demo_env demo_config (initial 0) = [] \<and>
   run_result demo_env demo_config 0 = Inr True \<and>
   flow_budget demo_env demo_config (initial 0) = 1 \<and>
   length (explored_after [] (run_obs demo_env demo_config 0)) = 2 \<and>
   length (probed (run_obs demo_env demo_config 0)) = 2 \<and>
   flow_budget demo_env demo_config (initial 0)
     \<le> int (length (explored_after [] (run_obs demo_env demo_config 0))) \<and>
   length (catalog_coordinates load_ruin_coordinates) = 690"
proof -
  note inst = explored_set_size_after_run [OF demo_inputs(2)]
  have ev: "length (explored_after [] (run_obs demo_env demo_config 0)) = 2"
    "length (probed (run_obs demo_env demo_config 0)) = 2"
    by (simp_all add: demo_run explored_after_def)
  from inst demo_inputs(3) have "flow_budget demo_env demo_config (initial 0)
     \<le> int (length (explored_after [] (run_obs demo_env demo_config 0)))" by blast
  moreover from inst have "length (catalog_coordinates load_ruin_coordinates) = 690" by blast
  ultimately show ?thesis using ev demo_inputs by simp
qed

text \<open>
  On the sample device that is lost when the search button is tapped, the budget is 1 and
  the explored list is empty at the start; the first probe raises, and the run ends with an
  explored list that is still empty: fewer entries than the budget.
\<close>

theorem explored_set_below_budget_when_probe_raises:
  "flow_explored unplugged_env demo_config (initial 0) = [] \<and>
   flow_budget unplugged_env demo_config (initial 0) = 1 \<and>
   run_result unplugged_env demo_config 0 = Inl (Raised ''device offline'') \<and>
   probed (run_obs unplugged_env demo_config 0) = [(15, 149)] \<and>
   explored_after [] (run_obs unplugged_env demo_config 0) = [] \<and>
   \<not> flow_budget unplugged_env demo_config (initial 0)
       \<le> int (length (explored_after [] (run_obs unplugged_env demo_config 0)))"
  by (simp add: unplugged_run explored_after_def)

section \<open>Every probed coordinate is marked explored and saved\<close>

text \<open>
  C3. \<open>save_explored_ruins\<close> hands the whole list to the file write and only logs a failure
  of the write. In the loop, whether the probe of a coordinate returns \<open>True\<close> or \<open>False\<close>,
  the key of the coordinate is appended to the explored list and the whole list is handed
  to \<open>save_explored_ruins\<close> before the next coordinate is looked at. In a run of the flow
  every probe that returns is therefore followed at once (after the success line, if any)
  by the write of the loaded list, the keys probed before and this key; a probe that raises
  ends the run. No key is probed twice in a run, so a coordinate whose probe failed is not
  retried in that run; when the run returns, the list last written holds the key of every
  coordinate probed; and a later run that loads a list holding the list last written probes
  no coordinate whose key is in it.
\<close>

theorem probed_coordinate_marked_and_saved:
  "(\<forall>explored s.
      world (save_explored_ruins env explored s) = snd (json_dump env explored (world s)) \<and>
      trace (save_explored_ruins env explored s) =
        trace s @ JsonDump explored (fst (json_dump env explored (world s))) #
          (case fst (json_dump env explored (world s)) of
             None \<Rightarrow> [] | Some e \<Rightarrow> [Log (ErrorSaving e)])) \<and>
   (\<forall>found s s1 B cs v x y.
      search_ruin_at_coordinate env cfg x y s = (Inr found, s1) \<and> marches_used v < B \<and>
      coord_key x y \<notin> set (explored_ruins v) \<longrightarrow>
      explore_coordinates env cfg B ((x, y) # cs) v s =
        explore_coordinates env cfg B cs
          ((if found then v\<lparr>marches_used := marches_used v + 1,
                             total_explored := total_explored v + 1\<rparr> else v)
             \<lparr>explored_ruins := explored_ruins v @ [coord_key x y]\<rparr>)
          (sleep env 1 (save_explored_ruins env (explored_ruins v @ [coord_key x y])
             (if found then log_msg (MarchStarted (marches_used v + 1) B x y) s1 else s1)))) \<and>
   (\<forall>pre x y post. run_obs env cfg w = pre @ Probe x y # post \<longrightarrow>
      (\<exists>post'. post =
          Saved (flow_explored env cfg (initial w) @ keys (probed pre) @ [coord_key x y]) # post')
    \<or> (\<exists>post'. post = Success #
          Saved (flow_explored env cfg (initial w) @ keys (probed pre) @ [coord_key x y]) # post')
    \<or> (post = [] \<and> (\<exists>e. run_result env cfg w = Inl e))) \<and>
   distinct (keys (probed (run_obs env cfg w))) \<and>
   (\<forall>b. run_result env cfg w = Inr b \<longrightarrow>
      explored_after (flow_explored env cfg (initial w)) (run_obs env cfg w) =
        flow_explored env cfg (initial w) @ keys (probed (run_obs env cfg w))) \<and>
   saved (run_obs env cfg w) =
     map fst (dumps (trace (snd (explore_ruins_flow env cfg (initial w))))) \<and>
   (\<forall>env' cfg' w' x y.
      coord_key x y \<in> set (explored_after (flow_explored env cfg (initial w)) (run_obs env cfg w)) \<and>
      set (explored_after (flow_explored env cfg (initial w)) (run_obs env cfg w))
        \<subseteq> set (flow_explored env' cfg' (initial w')) \<longrightarrow>
      (x, y) \<notin> set (probed (run_obs env' cfg' w')))"
proof -
  have later: "(x, y) \<notin> set (probed (run_obs env' cfg' w'))"
    if "coord_key x y \<in> set (explored_after (flow_explored env cfg (initial w)) (run_obs env cfg w)) \<and>
        set (explored_after (flow_explored env cfg (initial w)) (run_obs env cfg w))
          \<subseteq> set (flow_explored env' cfg' (initial w'))"
    for env' :: "'v env" and cfg' w' x y
    using that by (intro loaded_key_not_probed) auto
  have follows: "(\<exists>post'. post =
          Saved (flow_explored env cfg (initial w) @ keys (probed pre) @ [coord_key x y]) # post')
    \<or> (\<exists>post'. post = Success #
          Saved (flow_explored env cfg (initial w) @ keys (probed pre) @ [coord_key x y]) # post')
    \<or> (post = [] \<and> (\<exists>e. run_result env cfg w = Inl e))"
    if "run_obs env cfg w = pre @ Probe x y # post" for pre x y post
    using that by (rule run_save_follows)
  have body: "explore_coordinates env cfg B ((x, y) # cs) v s =
        explore_coordinates env cfg B cs
          ((if found then v\<lparr>marches_used := marches_used v + 1,
                             total_explored := total_explored v + 1\<rparr> else v)
             \<lparr>explored_ruins := explored_ruins v @ [coord_key x y]\<rparr>)
          (sleep env 1 (save_explored_ruins env (explored_ruins v @ [coord_key x y])
             (if found then log_msg (MarchStarted (marches_used v + 1) B x y) s1 else s1)))"
    if "search_ruin_at_coordinate env cfg x y s = (Inr found, s1) \<and> marches_used v < B \<and>
      coord_key x y \<notin> set (explored_ruins v)" for found s s1 B cs v x y
    using that by (intro explore_coordinates_body) simp_all
  from save_explored_ruins_exact [of env] body follows run_probes_distinct [of env cfg w]
    run_returned [of env cfg w] run_saved_dumps [of env cfg w] later
  show ?thesis by (intro conjI allI impI) blast+
qed

theorem probed_coordinate_marked_and_saved_witness:
  "run_obs demo_env demo_config 0 =
     [] @ Probe 15 149 # [Saved [''15,149''], Probe 33 175, Success, Saved [''15,149'', ''33,175'']] \<and>
   run_obs demo_env demo_config 0 =
     [Probe 15 149, Saved [''15,149'']] @ Probe 33 175 # [Success, Saved [''15,149'', ''33,175'']] \<and>
   flow_explored demo_env demo_config (initial 0) @ keys (probed []) @ [coord_key 15 149] = [''15,149''] \<and>
   flow_explored demo_env demo_config (initial 0) @ keys (probed [Probe 15 149, Saved [''15,149'']])
      @ [coord_key 33 175] = [''15,149'', ''33,175''] \<and>
   distinct (keys (probed (run_obs demo_env demo_config 0))) \<and>
   fst (search_ruin_at_coordinate demo_env demo_config 15 149 (initial 1)) = Inr False \<and>
   map_sum id explored_ruins
     (fst (explore_coordinates demo_env demo_config 1 [(15, 149)]
        \<lparr>marches_used = 0, total_explored = 0, explored_ruins = []\<rparr> (initial 1))) =
     Inr [''15,149''] \<and>
   run_result demo_env demo_config 0 = Inr True \<and>
   explored_after (flow_explored demo_env demo_config (initial 0)) (run_obs demo_env demo_config 0) =
     [''15,149'', ''33,175''] \<and>
   coord_key 15 149 \<in> set [''15,149'', ''33,175''] \<and>
   set [''15,149'', ''33,175''] \<subseteq> set (flow_explored resumed_env demo_config (initial 0)) \<and>
   (15, 149) \<notin> set (probed (run_obs resumed_env demo_config 0)) \<and>
   probed (run_obs resumed_env demo_config 0) = [(34, 110), (73, 58)]"
proof -
  have body: "fst (search_ruin_at_coordinate demo_env demo_config 15 149 (initial 1)) = Inr False"
    "map_sum id explored_ruins
       (fst (explore_coordinates demo_env demo_config 1 [(15, 149)]
          \<lparr>marches_used = 0, total_explored = 0, explored_ruins = []\<rparr> (initial 1))) =
       Inr [''15,149'']"
    by (simp_all add: eval_defs)
  have ks: "coord_key 15 149 = ''15,149''" "coord_key 33 175 = ''33,175''"
    by (simp_all add: coord_key_def str_def digit_def)
  have ea: "explored_after (flow_explored demo_env demo_config (initial 0))
      (run_obs demo_env demo_config 0) = [''15,149'', ''33,175'']"
    by (simp add: demo_run demo_inputs explored_after_def)
  have k: "coord_key 15 149 \<in> set (explored_after (flow_explored demo_env demo_config (initial 0))
      (run_obs demo_env demo_config 0))"
    unfolding ea by (simp add: ks)
  have sub: "set (explored_after (flow_explored demo_env demo_config (initial 0))
      (run_obs demo_env demo_config 0)) \<subseteq> set (flow_explored resumed_env demo_config (initial 0))"
    unfolding ea by (simp add: resumed_run)
  note inst = probed_coordinate_marked_and_saved [of demo_env demo_config 0]
  from inst have "distinct (keys (probed (run_obs demo_env demo_config 0)))" by blast
  moreover have "(15, 149) \<notin> set (probed (run_obs resumed_env demo_config 0))"
    by (rule inst [THEN conjunct2, THEN conjunct2, THEN conjunct2, THEN conjunct2,
          THEN conjunct2, THEN conjunct2, THEN spec, THEN spec, THEN spec, THEN spec,
          THEN spec, THEN mp, OF conjI [OF k sub]])
  ultimately show ?thesis using body ks ea by (simp add: demo_run demo_inputs resumed_run)
qed

text \<open>
  On the sample device that is lost when the search button is tapped, the first coordinate
  is probed, the probe raises and the flow ends: the key is not appended and nothing is
  written. On the sample device whose file cannot be written, the run returns \<open>True\<close> and
  both writes raise: the explored list does not reach the disk.
\<close>

theorem probed_coordinate_not_saved_when_probe_or_write_raises:
  "run_obs unplugged_env demo_config 0 = [Probe 15 149] \<and>
   run_result unplugged_env demo_config 0 = Inl (Raised ''device offline'') \<and>
   saved (run_obs unplugged_env demo_config 0) = [] \<and>
   dumps (trace (snd (explore_ruins_flow unplugged_env demo_config (initial 0)))) = [] \<and>
   run_result read_only_env demo_config 0 = Inr True \<and>
   dumps (trace (snd (explore_ruins_flow read_only_env demo_config (initial 0)))) =
     [([''15,149''], Some (Raised ''read-only file system'')),
      ([''15,149'', ''33,175''], Some (Raised ''read-only file system''))]"
  by (simp add: unplugged_run read_only_run)

section \<open>Clicking an element tries a bounded number of times\<close>

text \<open>
  C9. \<open>click_element\<close> calls the detector at most \<open>max_attempts\<close> times, each time for the
  image, area and threshold of the requested element. It returns \<open>False\<close>, and its last act
  is then a log line, when no device is connected, when the element is missing from the
  configuration, when none of its \<open>max_attempts\<close> detections finds the element, and when the
  tap on a detected element fails; in the last case it does not detect again.
\<close>

theorem click_element_bounded_attempts:
  "length (detections (trace (snd (click_element env cfg element_name max_attempts thr (initial w)))))
     \<le> nat max_attempts \<and>
   (\<forall>ec. get_element cfg element_name = Some ec \<longrightarrow>
      (\<forall>d \<in> set (detections (trace (snd (click_element env cfg element_name max_attempts thr (initial w))))).
         fst d = image_path ec \<and> fst (snd d) = search_area ec \<and>
         fst (snd (snd d)) = get_threshold ec thr)) \<and>
   (\<not> device env \<longrightarrow>
      \<not> fst (click_element env cfg element_name max_attempts thr (initial w)) \<and>
      trace (snd (click_element env cfg element_name max_attempts thr (initial w))) =
        [Log NoDeviceConnected]) \<and>
   (device env \<and> get_element cfg element_name = None \<longrightarrow>
      \<not> fst (click_element env cfg element_name max_attempts thr (initial w)) \<and>
      trace (snd (click_element env cfg element_name max_attempts thr (initial w))) =
        [Log (ElementNotInConfig element_name)]) \<and>
   (device env \<and> get_element cfg element_name \<noteq> None \<and>
    (\<forall>d \<in> set (detections (trace (snd (click_element env cfg element_name max_attempts thr (initial w))))).
       snd (snd (snd d)) = None) \<longrightarrow>
      \<not> fst (click_element env cfg element_name max_attempts thr (initial w)) \<and>
      length (detections (trace (snd (click_element env cfg element_name max_attempts thr (initial w)))))
        = nat max_attempts \<and>
      last (trace (snd (click_element env cfg element_name max_attempts thr (initial w)))) =
        Log (NotFoundAfter element_name max_attempts)) \<and>
   ((\<exists>cmd e. Shell cmd (Some e) \<in>
        set (trace (snd (click_element env cfg element_name max_attempts thr (initial w))))) \<longrightarrow>
      \<not> fst (click_element env cfg element_name max_attempts thr (initial w)) \<and>
      last (trace (snd (click_element env cfg element_name max_attempts thr (initial w)))) =
        Log (FailedToClick element_name)) \<and>
   (\<not> fst (click_element env cfg element_name max_attempts thr (initial w)) \<longrightarrow>
      trace (snd (click_element env cfg element_name max_attempts thr (initial w))) \<noteq> [] \<and>
      (\<exists>m. last (trace (snd (click_element env cfg element_name max_attempts thr (initial w)))) = Log m))"
proof (cases "device env")
  case False
  then show ?thesis by (simp add: click_element_def initial_def)
next
  case dev: True
  show ?thesis
  proof (cases "get_element cfg element_name")
    case None
    with dev show ?thesis by (simp add: click_element_def initial_def)
  next
    case (Some ec)
    let ?L = "click_element_loop env element_name ec max_attempts thr [0..max_attempts - 1] (initial w)"
    have eq: "click_element env cfg element_name max_attempts thr (initial w) = ?L"
      using dev Some by (simp add: click_element_def)
    from click_element_loop_trace [OF dev, of element_name ec max_attempts thr "[0..max_attempts - 1]" "initial w"]
    obtain evs where evs: "trace (snd ?L) = evs"
      "click_post element_name ec max_attempts thr (nat max_attempts) (fst ?L) evs"
      by (auto simp: initial_def)
    from evs(2) dev Some show ?thesis unfolding eq evs(1) click_post_def by auto
  qed
qed

theorem click_element_bounded_attempts_witness:
  "length (detections (trace (snd (click_element demo_env demo_config ''exploreNew'' 4 0.5 (initial 0)))))
     \<le> nat 4 \<and>
   fst (click_element demo_env demo_config ''exploreNew'' 4 0.5 (initial 0)) \<and>
   get_element demo_config ''home_button'' = None \<and>
   \<not> fst (click_element demo_env demo_config ''home_button'' 4 0.5 (initial 0)) \<and>
   trace (snd (click_element demo_env demo_config ''home_button'' 4 0.5 (initial 0))) =
     [Log (ElementNotInConfig ''home_button'')] \<and>
   detections (trace (snd (click_element demo_env demo_config ''exploreNew'' 2 0.5 (initial 0)))) =
     [(''explore.png'', Some (800, 200, 1100, 400), 0.5, None),
      (''explore.png'', Some (800, 200, 1100, 400), 0.5, None)] \<and>
   \<not> fst (click_element demo_env demo_config ''exploreNew'' 2 0.5 (initial 0)) \<and>
   last (trace (snd (click_element demo_env demo_config ''exploreNew'' 2 0.5 (initial 0)))) =
     Log (NotFoundAfter ''exploreNew'' 2)"
proof -
  have ev: "fst (click_element demo_env demo_config ''exploreNew'' 4 0.5 (initial 0))"
    "get_element demo_config ''home_button'' = None"
    "detections (trace (snd (click_element demo_env demo_config ''exploreNew'' 2 0.5 (initial 0)))) =
     [(''explore.png'', Some (800, 200, 1100, 400), 0.5, None),
      (''explore.png'', Some (800, 200, 1100, 400), 0.5, None)]"
    "device demo_env"
    by (simp_all add: eval_defs upto_rec1)
  from click_element_bounded_attempts [of demo_env demo_config "''exploreNew''" 4 "0.5" 0]
  have a: "length (detections (trace (snd (click_element demo_env demo_config ''exploreNew'' 4 0.5 (initial 0)))))
     \<le> nat 4" by blast
  from click_element_bounded_attempts [of demo_env demo_config "''home_button''" 4 "0.5" 0] ev(2,4)
  have b: "\<not> fst (click_element demo_env demo_config ''home_button'' 4 0.5 (initial 0)) \<and>
   trace (snd (click_element demo_env demo_config ''home_button'' 4 0.5 (initial 0))) =
     [Log (ElementNotInConfig ''home_button'')]" by blast
  have cfgd: "get_element demo_config ''exploreNew'' \<noteq> None" by (simp add: eval_defs)
  have none: "\<forall>d \<in> set (detections (trace (snd (click_element demo_env demo_config ''exploreNew'' 2 0.5 (initial 0))))).
       snd (snd (snd d)) = None" unfolding ev(3) by simp
  from click_element_bounded_attempts [of demo_env demo_config "''exploreNew''" 2 "0.5" 0] ev(4) cfgd none
  have c: "\<not> fst (click_element demo_env demo_config ''exploreNew'' 2 0.5 (initial 0)) \<and>
   last (trace (snd (click_element demo_env demo_config ''exploreNew'' 2 0.5 (initial 0)))) =
     Log (NotFoundAfter ''exploreNew'' 2)" by blast
  from a b c ev show ?thesis by blast
qed

section \<open>The ruin-variant block is dead code\<close>

text \<open>
  C10. In \<open>search_ruin_at_coordinate\<close> the conditional on the exploreNew click returns in both
  of its branches, so whatever statements follow it never run: the function is the same for
  every block put in their place. It returns \<open>True\<close> exactly when both coordinate inputs
  return \<open>True\<close>, the two taps that follow go through, and the one click on exploreNew, with
  one attempt and threshold 0.4, succeeds.
\<close>

theorem ruin_variant_block_unreachable:
  "fst (explore_click_stmt env cfg s) \<noteq> Next \<and>
   search_ruin_at_coordinate_then rest env cfg x y s = search_ruin_at_coordinate env cfg x y s \<and>
   (fst (search_ruin_at_coordinate env cfg x y s) = Inr True \<longleftrightarrow>
      (\<exists>s1 s2 s3 s4.
         input_coordinate env ''X'' (str x) (log_msg (Searching x y) s) = (Inr True, s1) \<and>
         input_coordinate env ''Y'' (str y) s1 = (Inr True, s2) \<and>
         shell env ''input tap 1061 41'' s2 = (None, s3) \<and>
         shell env ''input tap 951 313'' (sleep env 1.25 s3) = (None, s4) \<and>
         fst (click_element env cfg ''exploreNew'' 1 0.4 (sleep env 0.25 s4))))"
proof (intro conjI)
  show "fst (explore_click_stmt env cfg s) \<noteq> Next"
    by (simp add: explore_click_stmt_returns)
  show "search_ruin_at_coordinate_then rest env cfg x y s = search_ruin_at_coordinate env cfg x y s"
    by (rule search_then_any)
  show "fst (search_ruin_at_coordinate env cfg x y s) = Inr True \<longleftrightarrow>
      (\<exists>s1 s2 s3 s4.
         input_coordinate env ''X'' (str x) (log_msg (Searching x y) s) = (Inr True, s1) \<and>
         input_coordinate env ''Y'' (str y) s1 = (Inr True, s2) \<and>
         shell env ''input tap 1061 41'' s2 = (None, s3) \<and>
         shell env ''input tap 951 313'' (sleep env 1.25 s3) = (None, s4) \<and>
         fst (click_element env cfg ''exploreNew'' 1 0.4 (sleep env 0.25 s4)))"
    unfolding search_then_any [of "\<lambda>s. (Inr False, s)", symmetric]
    by (auto simp: search_ruin_at_coordinate_then_def explore_click_stmt_def
        split: prod.splits sum.splits option.splits bool.splits completion.splits)
qed

theorem ruin_variant_block_unreachable_witness:
  "search_ruin_at_coordinate_then (\<lambda>s. (Inr True, s)) demo_env demo_config 15 149 (initial 1) =
     search_ruin_at_coordinate demo_env demo_config 15 149 (initial 1) \<and>
   fst (search_ruin_at_coordinate demo_env demo_config 15 149 (initial 1)) = Inr False \<and>
   fst (search_ruin_at_coordinate demo_env demo_config 33 175 (initial 2)) = Inr True"
proof -
  have "fst (search_ruin_at_coordinate demo_env demo_config 15 149 (initial 1)) = Inr False"
    "fst (search_ruin_at_coordinate demo_env demo_config 33 175 (initial 2)) = Inr True"
    by (simp_all add: eval_defs)
  with ruin_variant_block_unreachable [of demo_env demo_config "initial 1" "\<lambda>s. (Inr True, s)" 15 149]
  show ?thesis by blast
qed

section \<open>The budget probe counts the indicators that are present\<close>

text \<open>
  C2. On the sample device, with both march indicators configured: when both are detected
  on screen, \<open>count_available_marches\<close> logs that both slots are available and returns 0;
  when neither is detected it returns 2. It decrements the count for an indicator that is
  present, not for one that is absent.
\<close>

theorem count_available_marches_counts_present:
  "fst (count_available_marches demo_env busy_config (initial 0)) = 0 \<and>
   trace (snd (count_available_marches demo_env busy_config (initial 0))) =
     [Detect ''march1.png'' None 0.5 (Some (40, 60)), Log March1Available,
      Detect ''march2.png'' None 0.7 (Some (40, 60)), Log March2Available,
      Log (TotalAvailableMarches 0)] \<and>
   fst (count_available_marches dark_env busy_config (initial 0)) = 2 \<and>
   trace (snd (count_available_marches dark_env busy_config (initial 0))) =
     [Detect ''march1.png'' None 0.5 None, Log March1NotAvailable,
      Detect ''march2.png'' None 0.7 None, Log March2NotAvailable,
      Log (TotalAvailableMarches 2)]"
  by (simp add: eval_defs dark_env_def Let_def)

end
